theory Spec2Isabelle
  imports Main "HOL-Library.Word" "HOL-Library.Log_Nat"
begin

section \<open>The battery monitor: data model\<close>

text \<open>
  The program is one C file, \<^verbatim>\<open>battery-monitor.c\<close>. A C string is modelled by the list
  of its characters before the terminating NUL. A C \<^verbatim>\<open>int\<close> and a C
  \<^verbatim>\<open>unsigned int\<close> are both 32-bit words: \<open>sint\<close> reads a word as the
  \<^verbatim>\<open>int\<close>, \<open>uint\<close> and \<open>unat\<close> read it as the \<^verbatim>\<open>unsigned int\<close>.
  The order \<open><\<close> on words is the unsigned one, which is the comparison C makes
  when one operand is \<^verbatim>\<open>int\<close> and the other \<^verbatim>\<open>unsigned int\<close>.
\<close>

type_synonym c_int = "32 word"
type_synonym c_uint = "32 word"

datatype error =
    NullPointerDereference
  | BufferOverflow
  | OpenFailed
  | WriteFailed
  | UsageError

subsection \<open>Globals\<close>

text \<open>
  The file-level variables. \<^verbatim>\<open>VOLTS_STEP\<close> is a \<^verbatim>\<open>double\<close>; the record keeps
  the two unsigned operands of the division that computes it, not the quotient.
\<close>

definition OFFSET_LEFT :: c_uint where
  "OFFSET_LEFT = 10"

definition OFFSET_BOTTOM :: c_uint where
  "OFFSET_BOTTOM = 3"

definition ALLOWED_CHARS :: string where
  "ALLOWED_CHARS = ''0123456789ABCDEFGHIJKLMNOPQRSTUVWXYZ,''"

record config =
  SCREEN_HEIGHT :: c_uint
  OFFSET_TOP :: c_uint
  BAR_WIDTH :: c_uint
  SPACE_BETWEEN_BARS :: c_int
  VOLTS_MIN :: c_uint
  VOLTS_MAX :: c_uint
  VOLTS_STEP_dividend :: c_uint
  VOLTS_STEP_divisor :: c_uint
  MAX_LINE_LENGTH :: c_uint
  FRAME_INTERVAL :: c_uint
  OUTPUT_FILE :: "string option"

definition initial_config :: config where
  "initial_config =
     \<lparr>SCREEN_HEIGHT = 24, OFFSET_TOP = 0, BAR_WIDTH = 3, SPACE_BETWEEN_BARS = 3,
      VOLTS_MIN = 80, VOLTS_MAX = 150, VOLTS_STEP_dividend = 0, VOLTS_STEP_divisor = 0,
      MAX_LINE_LENGTH = 512, FRAME_INTERVAL = 0, OUTPUT_FILE = None\<rparr>"

section \<open>Library functions the program calls\<close>

text \<open>
  \<^verbatim>\<open>strchr(s, c)\<close> is used only for its result being \<^verbatim>\<open>NULL\<close> or not, on characters
  of a string (never the NUL).
\<close>

definition strchr :: "string \<Rightarrow> char \<Rightarrow> bool" where
  "strchr s c = (c \<in> set s)"

definition isspace :: "char \<Rightarrow> bool" where
  "isspace c = (c \<in> set [CHR '' '', CHR 0x09, CHR 0x0A, CHR 0x0B, CHR 0x0C, CHR 0x0D])"

definition isdigit :: "char \<Rightarrow> bool" where
  "isdigit c = (48 \<le> (of_char c :: nat) \<and> (of_char c :: nat) \<le> 57)"

fun strtol_digits :: "int \<Rightarrow> string \<Rightarrow> int" where
  "strtol_digits acc [] = acc"
| "strtol_digits acc (c # cs) =
     (if isdigit c then strtol_digits (10 * acc + (int (of_char c) - 48)) cs else acc)"

text \<open>
  The decimal value \<^verbatim>\<open>strtol(s, NULL, 10)\<close> reads: leading white space, an optional
  sign, then the longest run of digits; 0 when there is no digit.
\<close>

definition strtol_value :: "string \<Rightarrow> int" where
  "strtol_value s =
     (case dropWhile isspace s of
        [] \<Rightarrow> 0
      | c # cs \<Rightarrow>
          if c = CHR ''-'' then - strtol_digits 0 cs
          else if c = CHR ''+'' then strtol_digits 0 cs
          else strtol_digits 0 (c # cs))"

text \<open>
  \<^verbatim>\<open>strtol\<close> with a 64-bit \<^verbatim>\<open>long\<close>: a value out of range is replaced by
  \<^verbatim>\<open>LONG_MAX\<close> or \<^verbatim>\<open>LONG_MIN\<close>.
\<close>

definition strtol :: "string \<Rightarrow> int" where
  "strtol s = max (- (2 ^ 63)) (min (2 ^ 63 - 1) (strtol_value s))"

text \<open>
  \<^verbatim>\<open>atoi\<close> is \<^verbatim>\<open>(int) strtol(s, NULL, 10)\<close>: the conversion from \<^verbatim>\<open>long\<close> to
  \<^verbatim>\<open>int\<close> keeps the low 32 bits.
\<close>

definition atoi :: "string \<Rightarrow> c_int" where
  "atoi s = word_of_int (strtol s)"

text \<open>
  One call of \<^verbatim>\<open>strtok\<close> on the text that is left: it skips leading delimiters,
  answers \<^verbatim>\<open>NULL\<close> (\<open>None\<close>) when nothing remains, and otherwise the token up to
  the next delimiter together with the text after that delimiter, where the next call
  \<^verbatim>\<open>strtok(NULL, delim)\<close> resumes.
\<close>

definition strtok :: "string \<Rightarrow> string \<Rightarrow> (string \<times> string) option" where
  "strtok s delim =
     (let s1 = dropWhile (\<lambda>c. c \<in> set delim) s
      in if s1 = [] then None
         else Some (takeWhile (\<lambda>c. c \<notin> set delim) s1,
                    drop 1 (dropWhile (\<lambda>c. c \<notin> set delim) s1)))"

text \<open>The character \<^verbatim>\<open>*token\<close> of a non-null token: NUL for the empty string.\<close>

definition deref :: "string \<Rightarrow> char" where
  "deref s = (case s of [] \<Rightarrow> CHR 0x00 | c # _ \<Rightarrow> c)"

section \<open>Record validation: \<^verbatim>\<open>is_valid_line\<close>\<close>

text \<open>
  The first loop copies every character that is not one of \<^verbatim>\<open>" \t\r\n"\<close>; the second
  loop clears the flag at the first character outside \<^verbatim>\<open>ALLOWED_CHARS\<close> and breaks.
  The function returns the flag and, when it is set, has overwritten the caller's
  buffer with the stripped text; the model returns the flag and the buffer.
\<close>

definition WHITE_SPACE :: string where
  "WHITE_SPACE = [CHR '' '', CHR 0x09, CHR 0x0D, CHR 0x0A]"

fun strip_loop :: "string \<Rightarrow> string" where
  "strip_loop [] = []"
| "strip_loop (c # cs) =
     (if \<not> strchr WHITE_SPACE c then c # strip_loop cs else strip_loop cs)"

fun check_loop :: "string \<Rightarrow> bool \<Rightarrow> bool" where
  "check_loop [] valid_line = valid_line"
| "check_loop (c # cs) valid_line =
     (if \<not> strchr ALLOWED_CHARS c then False else check_loop cs valid_line)"

definition is_valid_line :: "string \<Rightarrow> bool \<times> string" where
  "is_valid_line line =
     (let tmp = strip_loop line;
          valid_line = (if tmp = [] then False else True);
          valid_line = check_loop tmp valid_line
      in (valid_line, if valid_line then tmp else line))"

text \<open>
  The white space of \<^verbatim>\<open>is_valid_line\<close>: the four characters of its string literal,
  space, tab, carriage return and line feed. The vertical tab and the form feed, which
  \<open>isspace\<close> counts as white space, are not among them.
\<close>

definition is_whitespace :: "char \<Rightarrow> bool" where
  "is_whitespace c = (c = CHR '' '' \<or> c = CHR 0x09 \<or> c = CHR 0x0D \<or> c = CHR 0x0A)"

text \<open>The allowed set: a digit, an upper-case letter or the comma.\<close>

definition allowed_char :: "char \<Rightarrow> bool" where
  "allowed_char c =
     ((48 \<le> (of_char c :: nat) \<and> (of_char c :: nat) \<le> 57) \<or>
      (65 \<le> (of_char c :: nat) \<and> (of_char c :: nat) \<le> 90) \<or>
      c = CHR '','')"

text \<open>
  The contract as the specification words it: strip all white space characters;
  invalid when nothing is left or a remaining character is outside the allowed set.
\<close>

definition validate_and_normalize_spec :: "string \<Rightarrow> string option" where
  "validate_and_normalize_spec raw =
     (let stripped = filter (\<lambda>c. \<not> isspace c) raw
      in if stripped = [] \<or> \<not> list_all allowed_char stripped then None
         else Some stripped)"

text \<open>The same contract with only the four characters stripped.\<close>

definition validate_and_normalize_four :: "string \<Rightarrow> string option" where
  "validate_and_normalize_four raw =
     (let stripped = filter (\<lambda>c. \<not> is_whitespace c) raw
      in if stripped = [] \<or> \<not> list_all allowed_char stripped then None
         else Some stripped)"

section \<open>Extraction of the readings: \<^verbatim>\<open>read_voltages\<close>\<close>

lemma strtok_shorter: "strtok s delim = Some (token, rest) \<Longrightarrow> length rest < length s"
proof -
  assume a: "strtok s delim = Some (token, rest)"
  define s1 where "s1 = dropWhile (\<lambda>c. c \<in> set delim) s"
  define s2 where "s2 = dropWhile (\<lambda>c. c \<notin> set delim) s1"
  from a have ne: "s1 \<noteq> []" and r: "rest = drop 1 s2"
    by (auto simp: strtok_def s1_def s2_def Let_def split: if_splits)
  have "length s2 \<le> length s1"
    unfolding s2_def by (rule length_dropWhile_le)
  moreover have "length s1 \<le> length s"
    unfolding s1_def by (rule length_dropWhile_le)
  moreover have "0 < length s1"
    using ne by simp
  moreover have "length rest = length s2 - 1"
    unfolding r by simp
  ultimately show ?thesis
    by linarith
qed

text \<open>
  The body of the \<^verbatim>\<open>do ... while\<close> loop on the current token, then the next
  \<^verbatim>\<open>strtok(NULL, ",")\<close> as the loop's test. \<open>voltages\<close> is what has been stored
  through \<^verbatim>\<open>voltages_offset\<close> so far.
\<close>

function read_voltages_loop :: "bool \<Rightarrow> string \<Rightarrow> string \<Rightarrow> c_int list \<Rightarrow> c_int list" where
  "read_voltages_loop battery_data_zone token rest voltages =
     (let zone1 = (if deref token = CHR ''H'' then False else battery_data_zone);
          voltages1 = (if zone1 then voltages @ [atoi token] else voltages);
          zone2 = (if deref token = CHR ''B'' then True else zone1)
      in case strtok rest '','' of
           None \<Rightarrow> voltages1
         | Some (token', rest') \<Rightarrow> read_voltages_loop zone2 token' rest' voltages1)"
  by pat_completeness auto
termination
  by (relation "measure (\<lambda>(z, t, r, v). length r)") (auto dest: strtok_shorter)

text \<open>
  \<^verbatim>\<open>read_voltages\<close> enters the loop with the first token unchecked: when the first
  \<^verbatim>\<open>strtok\<close> answers \<^verbatim>\<open>NULL\<close>, \<^verbatim>\<open>*token\<close> reads through a null pointer. Otherwise
  the result is everything stored in the caller's array, the closing \<open>-1\<close> included.
\<close>

definition read_voltages :: "string \<Rightarrow> error + c_int list" where
  "read_voltages line =
     (case strtok line '','' of
        None \<Rightarrow> Inl NullPointerDereference
      | Some (token, rest) \<Rightarrow> Inr (read_voltages_loop False token rest [] @ [- 1]))"

text \<open>All the tokens successive calls of \<^verbatim>\<open>strtok\<close> return on a line.\<close>

function tokens :: "string \<Rightarrow> string list" where
  "tokens s = (case strtok s '','' of None \<Rightarrow> [] | Some (token, rest) \<Rightarrow> token # tokens rest)"
  by pat_completeness auto
termination
  by (relation "measure length") (auto dest: strtok_shorter)

text \<open>
  The extraction rule as the specification words it, token by token: a token that
  begins with \<open>H\<close> closes the zone before it is looked at; a token met inside the zone
  is parsed and appended; a token that begins with \<open>B\<close> opens the zone after that.
\<close>

fun extract_readings_spec :: "bool \<Rightarrow> string list \<Rightarrow> c_int list" where
  "extract_readings_spec zone [] = []"
| "extract_readings_spec zone (t # ts) =
     (let zone_now = (zone \<and> \<not> (t \<noteq> [] \<and> hd t = CHR ''H''))
      in (if zone_now then [atoi t] else []) @
         extract_readings_spec (zone_now \<or> (t \<noteq> [] \<and> hd t = CHR ''B'')) ts)"

section \<open>The bars: clamping in \<^verbatim>\<open>print_battery_bars\<close>\<close>

text \<open>
  The two \<^verbatim>\<open>if\<close> statements at the head of the loop body. \<^verbatim>\<open>batteries[i]\<close> is an
  \<^verbatim>\<open>int\<close> and the bounds are \<^verbatim>\<open>unsigned int\<close>, so both comparisons are unsigned.
\<close>

definition clamp_battery :: "config \<Rightarrow> c_int \<Rightarrow> c_int" where
  "clamp_battery cfg b =
     (let b1 = (if b < VOLTS_MIN cfg then VOLTS_MIN cfg else b)
      in if b1 > VOLTS_MAX cfg then VOLTS_MAX cfg else b1)"

text \<open>The array after the call: every entry clamped in place.\<close>

definition print_battery_bars_clamped :: "config \<Rightarrow> c_int list \<Rightarrow> c_int list" where
  "print_battery_bars_clamped cfg batteries = map (clamp_battery cfg) batteries"

section \<open>Double arithmetic\<close>

text \<open>
  \<^verbatim>\<open>VOLTS_STEP\<close> and the argument of \<^verbatim>\<open>round_to_int\<close> are \<^verbatim>\<open>double\<close>s. A finite
  double is modelled by the rational number it denotes, and an operation by the exact
  operation followed by the rounding of binary64: to the nearest number with a
  significand of 53 bits, a tie to the one with the even significand. The exponent
  range is not modelled: every finite value met below is 0 or lies between \<open>2^-33\<close>
  and \<open>2^65\<close> in magnitude, far from overflow and from the subnormal numbers. Zero has
  no sign; the only divisors that can be zero come from unsigned integers.
\<close>

text \<open>The nearest integer, a tie to the even one.\<close>

definition rne :: "rat \<Rightarrow> int" where
  "rne r =
     (let f = \<lfloor>r\<rfloor>; d = r - of_int f
      in if d < 1 / 2 then f else if 1 / 2 < d then f + 1 else if even f then f else f + 1)"

text \<open>The exponent of a non-zero number: \<open>2^e \<le> |q| < 2^(e+1)\<close>.\<close>

definition expo :: "rat \<Rightarrow> int" where
  "expo q =
     (let a = \<bar>fst (quotient_of q)\<bar>; b = snd (quotient_of q); d = bitlen a - bitlen b
      in if 2 powi d \<le> \<bar>q\<bar> then d else d - 1)"

text \<open>The spacing of the doubles around \<open>q\<close>, and the rounding to a double.\<close>

definition ulp :: "rat \<Rightarrow> rat" where
  "ulp q = 2 powi (expo q - 52)"

definition round_double :: "rat \<Rightarrow> rat" where
  "round_double q =
     (if q = 0 then 0
      else of_int (rne (q / 2 powi (expo q - 52))) * 2 powi (expo q - 52))"

text \<open>
  The values of a \<^verbatim>\<open>double\<close>, the conversion from \<^verbatim>\<open>unsigned int\<close> (exact), the
  division, the addition and the comparison \<^verbatim>\<open>x > 0\<close>.
\<close>

datatype double = Finite rat | PlusInfinity | MinusInfinity | NaN

definition double_of_uint :: "c_uint \<Rightarrow> double" where
  "double_of_uint w = Finite (of_int (uint w))"

fun fdiv :: "double \<Rightarrow> double \<Rightarrow> double" where
  "fdiv NaN y = NaN"
| "fdiv x NaN = NaN"
| "fdiv (Finite a) (Finite b) =
     (if b = 0 then (if a = 0 then NaN else if 0 < a then PlusInfinity else MinusInfinity)
      else Finite (round_double (a / b)))"
| "fdiv (Finite a) PlusInfinity = Finite 0"
| "fdiv (Finite a) MinusInfinity = Finite 0"
| "fdiv PlusInfinity (Finite b) = (if 0 \<le> b then PlusInfinity else MinusInfinity)"
| "fdiv MinusInfinity (Finite b) = (if 0 \<le> b then MinusInfinity else PlusInfinity)"
| "fdiv PlusInfinity PlusInfinity = NaN"
| "fdiv PlusInfinity MinusInfinity = NaN"
| "fdiv MinusInfinity PlusInfinity = NaN"
| "fdiv MinusInfinity MinusInfinity = NaN"

fun fadd :: "double \<Rightarrow> double \<Rightarrow> double" where
  "fadd NaN y = NaN"
| "fadd x NaN = NaN"
| "fadd (Finite a) (Finite b) = Finite (round_double (a + b))"
| "fadd (Finite a) PlusInfinity = PlusInfinity"
| "fadd (Finite a) MinusInfinity = MinusInfinity"
| "fadd PlusInfinity (Finite b) = PlusInfinity"
| "fadd MinusInfinity (Finite b) = MinusInfinity"
| "fadd PlusInfinity PlusInfinity = PlusInfinity"
| "fadd MinusInfinity MinusInfinity = MinusInfinity"
| "fadd PlusInfinity MinusInfinity = NaN"
| "fadd MinusInfinity PlusInfinity = NaN"

fun greater_zero :: "double \<Rightarrow> bool" where
  "greater_zero (Finite a) = (0 < a)"
| "greater_zero PlusInfinity = True"
| "greater_zero MinusInfinity = False"
| "greater_zero NaN = False"

text \<open>
  The conversion \<^verbatim>\<open>(int) x\<close> truncates towards zero; C leaves it undefined when the
  truncated value is not an \<^verbatim>\<open>int\<close>, and for infinities and NaN (\<open>None\<close>).
\<close>

fun int_of_double :: "double \<Rightarrow> int option" where
  "int_of_double (Finite a) =
     (let z = (if 0 \<le> a then \<lfloor>a\<rfloor> else \<lceil>a\<rceil>)
      in if - (2 ^ 31) \<le> z \<and> z \<le> 2 ^ 31 - 1 then Some z else None)"
| "int_of_double PlusInfinity = None"
| "int_of_double MinusInfinity = None"
| "int_of_double NaN = None"

text \<open>\<^verbatim>\<open>round_to_int\<close>: add 0.5 when \<^verbatim>\<open>x > 0\<close> and \<open>-0.5\<close> otherwise, then convert.\<close>

definition round_to_int :: "double \<Rightarrow> int option" where
  "round_to_int x =
     (let half = (if greater_zero x then Finite (1 / 2) else Finite (- (1 / 2)))
      in int_of_double (fadd x half))"

section \<open>The bars: height in \<^verbatim>\<open>print_battery_bars\<close>\<close>

text \<open>
  \<^verbatim>\<open>VOLTS_STEP\<close> as \<^verbatim>\<open>set_options\<close> computes it, from the two unsigned operands kept
  in the configuration.
\<close>

definition VOLTS_STEP :: "config \<Rightarrow> double" where
  "VOLTS_STEP cfg =
     fdiv (double_of_uint (VOLTS_STEP_dividend cfg)) (double_of_uint (VOLTS_STEP_divisor cfg))"

text \<open>
  The value \<^verbatim>\<open>round_to_int((batteries[i] - VOLTS_MIN) / VOLTS_STEP)\<close> for a clamped entry
  \<open>b\<close>: the subtraction is unsigned, its result converted to \<^verbatim>\<open>double\<close>.
\<close>

definition bar_height :: "config \<Rightarrow> c_int \<Rightarrow> int option" where
  "bar_height cfg b = round_to_int (fdiv (double_of_uint (b - VOLTS_MIN cfg)) (VOLTS_STEP cfg))"

text \<open>
  \<^verbatim>\<open>int current = 1 + ...\<close>, undefined when the sum leaves the \<^verbatim>\<open>int\<close> range, and the
  levels \<open>j\<close> of the first loop, \<open>0 \<le> j < current\<close>, which are painted filled.
\<close>

definition bar_current :: "config \<Rightarrow> c_int \<Rightarrow> int option" where
  "bar_current cfg b =
     (case bar_height cfg b of
        None \<Rightarrow> None
      | Some h \<Rightarrow> if 1 + h \<le> 2 ^ 31 - 1 then Some (1 + h) else None)"

definition filled_levels :: "config \<Rightarrow> c_int \<Rightarrow> int list option" where
  "filled_levels cfg b =
     (case bar_current cfg b of None \<Rightarrow> None | Some current \<Rightarrow> Some [0..current - 1])"


section \<open>Command line: \<^verbatim>\<open>set_options\<close>\<close>

text \<open>
  The input is the sequence of results of \<^verbatim>\<open>getopt_long_only\<close> before it answers
  \<open>-1\<close>: the code \<open>c\<close> with \<^verbatim>\<open>optarg\<close>. Codes 1 to 8 store a value, 9 is
  \<^verbatim>\<open>--help\<close>, 63 is \<^verbatim>\<open>'?'\<close>; these two and every other code set the failure flag.
\<close>

definition set_option :: "config \<times> bool \<Rightarrow> int \<times> string \<Rightarrow> config \<times> bool" where
  "set_option s opt =
     (let cfg = fst s; failure = snd s; c = fst opt; optarg = snd opt
      in if c = 1 then (cfg\<lparr>SCREEN_HEIGHT := atoi optarg\<rparr>, failure)
         else if c = 2 then (cfg\<lparr>BAR_WIDTH := atoi optarg\<rparr>, failure)
         else if c = 3 then (cfg\<lparr>SPACE_BETWEEN_BARS := atoi optarg\<rparr>, failure)
         else if c = 4 then (cfg\<lparr>VOLTS_MIN := 10 * atoi optarg\<rparr>, failure)
         else if c = 5 then (cfg\<lparr>VOLTS_MAX := 10 * atoi optarg\<rparr>, failure)
         else if c = 6 then (cfg\<lparr>MAX_LINE_LENGTH := atoi optarg\<rparr>, failure)
         else if c = 7 then (cfg\<lparr>FRAME_INTERVAL := 1000 * atoi optarg\<rparr>, failure)
         else if c = 8 then (cfg\<lparr>OUTPUT_FILE := Some optarg\<rparr>, failure)
         else if c = 9 then (cfg, True)
         else if c = 63 then (cfg, True)
         else (cfg, True))"

definition set_options :: "(int \<times> string) list \<Rightarrow> error + config" where
  "set_options parsed =
     (let s = foldl set_option (initial_config, False) parsed;
          cfg = fst s; failure = snd s
      in if failure then Inl UsageError
         else
           (let cfg1 = cfg\<lparr>OFFSET_TOP := SCREEN_HEIGHT cfg - 1\<rparr>
            in Inr (cfg1\<lparr>VOLTS_STEP_dividend := VOLTS_MAX cfg1 - VOLTS_MIN cfg1,
                          VOLTS_STEP_divisor := OFFSET_TOP cfg1 - OFFSET_BOTTOM\<rparr>)))"

section \<open>The read loop of \<^verbatim>\<open>main\<close>\<close>

text \<open>
  What the program meets outside itself. \<open>source w k\<close> is what the \<open>k\<close>-th
  \<^verbatim>\<open>fopen(fileName, "r")\<close> finds: it fails, or it gives the strings that the calls of
  \<^verbatim>\<open>fgets\<close> return one after the other, and what \<^verbatim>\<open>feof\<close> says once \<^verbatim>\<open>fgets\<close> has
  answered \<^verbatim>\<open>NULL\<close>. \<open>append_fails w n\<close> says whether appending to the output file
  fails after \<open>n\<close> successful appends.
\<close>

datatype read_end = EndOfFile | ReadFailure

datatype fopen_result = CannotOpen | Opened "string list" read_end

record world =
  source :: "nat \<Rightarrow> fopen_result"
  append_fails :: "nat \<Rightarrow> bool"

text \<open>
  The state of a run: how often the source has been opened, the bytes appended to the
  output file and the number of appends, and the battery arrays handed to
  \<^verbatim>\<open>print_bottom_panel\<close> and \<^verbatim>\<open>print_battery_bars\<close>, one per frame, oldest first.
\<close>

record run_state =
  opens :: nat
  appended :: string
  appends :: nat
  frames :: "c_int list list"

definition initial_state :: run_state where
  "initial_state = \<lparr>opens = 0, appended = [], appends = 0, frames = []\<rparr>"

type_synonym outcome = "(error \<times> run_state) + run_state"

text \<open>
  \<^verbatim>\<open>append_data_line\<close> writes the line and a newline, and ends the process when either
  write fails; what a failed append leaves in the file is not modelled.
\<close>

definition append_data_line :: "world \<Rightarrow> run_state \<Rightarrow> string \<Rightarrow> outcome" where
  "append_data_line w st line =
     (if append_fails w (appends st) then Inl (WriteFailed, st)
      else Inr (st\<lparr>appended := appended st @ line @ [CHR 0x0A], appends := appends st + 1\<rparr>))"

text \<open>
  \<^verbatim>\<open>int voltages[25]\<close> receives what \<^verbatim>\<open>read_voltages\<close> stores; more than 25 entries
  run past the array. The battery array is the part before the first \<open>-1\<close>.
\<close>

definition batteries_of :: "c_int list \<Rightarrow> error + c_int list" where
  "batteries_of voltages =
     (if 25 < length voltages then Inl BufferOverflow
      else Inr (takeWhile (\<lambda>v. v \<noteq> - 1) voltages))"

text \<open>The body of the \<^verbatim>\<open>while (fgets(...))\<close> loop on one string read.\<close>

definition process_line :: "config \<Rightarrow> world \<Rightarrow> string \<Rightarrow> run_state \<Rightarrow> outcome" where
  "process_line cfg w raw st =
     (case is_valid_line raw of
        (False, line) \<Rightarrow> Inr st
      | (True, line) \<Rightarrow>
          (case (if OUTPUT_FILE cfg \<noteq> None then append_data_line w st line else Inr st) of
             Inl e \<Rightarrow> Inl e
           | Inr st1 \<Rightarrow>
               (case read_voltages line of
                  Inl e \<Rightarrow> Inl (e, st1)
                | Inr voltages \<Rightarrow>
                    (case batteries_of voltages of
                       Inl e \<Rightarrow> Inl (e, st1)
                     | Inr batteries \<Rightarrow> Inr (st1\<lparr>frames := frames st1 @ [batteries]\<rparr>)))))"

fun read_lines :: "config \<Rightarrow> world \<Rightarrow> string list \<Rightarrow> run_state \<Rightarrow> outcome" where
  "read_lines cfg w [] st = Inr st"
| "read_lines cfg w (raw # strings) st =
     (case process_line cfg w raw st of
        Inl e \<Rightarrow> Inl e
      | Inr st1 \<Rightarrow> read_lines cfg w strings st1)"

text \<open>
  The outer \<^verbatim>\<open>for (;;)\<close>: open, read until \<^verbatim>\<open>fgets\<close> answers \<^verbatim>\<open>NULL\<close>, take
  \<^verbatim>\<open>feof\<close>, close, and \<^verbatim>\<open>break\<close> when it was the end of the file. The loop need not
  end, so its result is optional: \<open>None\<close> is a run that never leaves the loop.
\<close>

partial_function (option) main_loop :: "config \<Rightarrow> world \<Rightarrow> run_state \<Rightarrow> outcome option" where
  "main_loop cfg w st =
     (case source w (opens st) of
        CannotOpen \<Rightarrow> Some (Inl (OpenFailed, st))
      | Opened strings isEof \<Rightarrow>
          (case read_lines cfg w strings (st\<lparr>opens := opens st + 1\<rparr>) of
             Inl e \<Rightarrow> Some (Inl e)
           | Inr st1 \<Rightarrow> if isEof = EndOfFile then Some (Inr st1) else main_loop cfg w st1))"

declare main_loop.simps [code]

text \<open>The state an outcome ends in, whether the run stopped on an error or not.\<close>

definition final_state :: "outcome \<Rightarrow> run_state" where
  "final_state r = (case r of Inl (e, st) \<Rightarrow> st | Inr st \<Rightarrow> st)"

section \<open>Auxiliary notions and concrete inputs\<close>

text \<open>An option whose code stores a value (codes 1 to 8); every other code is refused.\<close>

definition stores_value :: "int \<times> string \<Rightarrow> bool" where
  "stores_value opt = (1 \<le> fst opt \<and> fst opt \<le> 8)"

text \<open>
  A world given by a finite script: the \<open>k\<close>-th opening finds the \<open>k\<close>-th entry,
  later openings fail, and appending to the output file always succeeds.
\<close>

definition world_of :: "fopen_result list \<Rightarrow> world" where
  "world_of script =
     \<lparr>source = (\<lambda>k. if k < length script then script ! k else CannotOpen),
      append_fails = (\<lambda>n. False)\<rparr>"

text \<open>The default configuration with \<^verbatim>\<open>--output-file=mirror.txt\<close>.\<close>

definition mirror_config :: config where
  "mirror_config = initial_config\<lparr>OUTPUT_FILE := Some ''mirror.txt''\<rparr>"

text \<open>The globals after \<^verbatim>\<open>--volts-min=20 --volts-max=10\<close>.\<close>

definition inverted_volts :: config where
  "inverted_volts = initial_config\<lparr>VOLTS_MIN := 200, VOLTS_MAX := 100\<rparr>"

text \<open>
  Two scripts for the source file. In the first the file ends after one record and
  holds a second record when it is opened again. In the second the first pass stops on
  a read error after one record and the second pass reads two records to the end.
\<close>

definition grown_after_eof :: world where
  "grown_after_eof =
     world_of [Opened [''B,100,H'' @ [CHR 0x0A]] EndOfFile,
               Opened [''B,100,H'' @ [CHR 0x0A], ''B,110,H'' @ [CHR 0x0A]] EndOfFile]"

definition error_then_eof :: world where
  "error_then_eof =
     world_of [Opened [''B,100,H'' @ [CHR 0x0A]] ReadFailure,
               Opened [''B,100,H'' @ [CHR 0x0A], ''B,110,H'' @ [CHR 0x0A]] EndOfFile]"

text \<open>
  The rounding as the specification words it, half away from zero, and the exact
  quotient \<open>(v - volts_min) / volts_step\<close> with the exact \<open>volts_step\<close>.
\<close>

definition round_half_away_from_zero :: "rat \<Rightarrow> int" where
  "round_half_away_from_zero x = (if 0 \<le> x then \<lfloor>x + 1 / 2\<rfloor> else \<lceil>x - 1 / 2\<rceil>)"

definition exact_quotient :: "config \<Rightarrow> c_int \<Rightarrow> rat" where
  "exact_quotient cfg b =
     of_int (uint (b - VOLTS_MIN cfg)) /
       (of_int (uint (VOLTS_MAX cfg - VOLTS_MIN cfg)) /
        of_int (uint (OFFSET_TOP cfg - OFFSET_BOTTOM)))"

text \<open>
  The height the code gives to a double quotient \<open>q\<close>: half away from zero, but for a
  \<open>q\<close> within \<open>2^-54\<close> below one half the sum \<open>q + 0.5\<close> rounds to 1.
\<close>

definition rounded_height :: "rat \<Rightarrow> int" where
  "rounded_height q =
     (if 1 / 2 - 1 / 2 ^ 54 \<le> q \<and> q < 1 / 2 then 1 else round_half_away_from_zero q)"

text \<open>
  The globals after \<^verbatim>\<open>set_options\<close> with no option, with \<^verbatim>\<open>--screen-height=17\<close>, with
  \<^verbatim>\<open>--volts-max=8\<close> (so that \<open>volts_max = volts_min\<close>), with \<^verbatim>\<open>--volts-max=12\<close> (so
  that the step is 2) and with \<^verbatim>\<open>--screen-height=0\<close>.
\<close>

definition default_config :: config where
  "default_config = initial_config\<lparr>OFFSET_TOP := 23,
      VOLTS_STEP_dividend := 70, VOLTS_STEP_divisor := 20\<rparr>"

definition height17 :: config where
  "height17 = initial_config\<lparr>SCREEN_HEIGHT := 17, OFFSET_TOP := 16,
      VOLTS_STEP_dividend := 70, VOLTS_STEP_divisor := 13\<rparr>"

definition flat_volts :: config where
  "flat_volts = initial_config\<lparr>OFFSET_TOP := 23, VOLTS_MAX := 80,
      VOLTS_STEP_dividend := 0, VOLTS_STEP_divisor := 20\<rparr>"

definition step_two :: config where
  "step_two = initial_config\<lparr>OFFSET_TOP := 23, VOLTS_MAX := 120,
      VOLTS_STEP_dividend := 40, VOLTS_STEP_divisor := 20\<rparr>"

definition no_screen :: config where
  "no_screen = initial_config\<lparr>SCREEN_HEIGHT := 0, OFFSET_TOP := 4294967295,
      VOLTS_STEP_dividend := 70, VOLTS_STEP_divisor := 4294967292\<rparr>"

text \<open>A record with a vertical tab between two digits.\<close>

definition record_with_vt :: string where
  "record_with_vt = ''B,1'' @ [CHR 0x0B] @ ''0,H''"

section \<open>Properties of the validation\<close>

lemma char_in_range:
  assumes "lo \<le> (of_char c :: nat)" "(of_char c :: nat) \<le> hi"
  shows "c \<in> set (map char_of [lo..<Suc hi])"
proof -
  have "(of_char c :: nat) \<in> set [lo..<Suc hi]"
    using assms by auto
  then have "char_of (of_char c :: nat) \<in> char_of ` set [lo..<Suc hi]"
    by (rule imageI)
  then show ?thesis by simp
qed

lemma digits_list: "map char_of [48..<Suc (57::nat)] = ''0123456789''"
  by code_simp

lemma uppers_list: "map char_of [65..<Suc (90::nat)] = ''ABCDEFGHIJKLMNOPQRSTUVWXYZ''"
  by code_simp

lemma strchr_ALLOWED_CHARS: "strchr ALLOWED_CHARS c = allowed_char c"
proof
  assume "strchr ALLOWED_CHARS c"
  then show "allowed_char c"
    by (auto simp: strchr_def ALLOWED_CHARS_def allowed_char_def)
next
  assume "allowed_char c"
  then consider "c \<in> set ''0123456789''" | "c \<in> set ''ABCDEFGHIJKLMNOPQRSTUVWXYZ''" | "c = CHR '',''"
    unfolding allowed_char_def
    using char_in_range [of 48 c 57] char_in_range [of 65 c 90]
    unfolding digits_list uppers_list by blast
  then show "strchr ALLOWED_CHARS c"
    by cases (auto simp: strchr_def ALLOWED_CHARS_def)
qed

lemma strchr_WHITE_SPACE: "strchr WHITE_SPACE c = is_whitespace c"
  by (auto simp: strchr_def WHITE_SPACE_def is_whitespace_def)

lemma allowed_not_whitespace: "allowed_char c \<Longrightarrow> \<not> is_whitespace c"
  by (auto simp: allowed_char_def is_whitespace_def)

lemma strip_loop_filter: "strip_loop line = filter (\<lambda>c. \<not> is_whitespace c) line"
  by (induction line) (simp_all add: strchr_WHITE_SPACE)

lemma check_loop_list_all: "check_loop s v = (v \<and> list_all allowed_char s)"
  by (induction s) (auto simp: strchr_ALLOWED_CHARS)

lemma is_valid_line_eq:
  "is_valid_line raw =
     (let stripped = filter (\<lambda>c. \<not> is_whitespace c) raw
      in if stripped \<noteq> [] \<and> list_all allowed_char stripped then (True, stripped) else (False, raw))"
  by (simp add: is_valid_line_def strip_loop_filter check_loop_list_all Let_def)

lemma filter_allowed_id: "list_all allowed_char s \<Longrightarrow> filter (\<lambda>c. \<not> is_whitespace c) s = s"
  by (induction s) (auto dest: allowed_not_whitespace)

text \<open>
  Claim C6, amended. For every raw string, \<^verbatim>\<open>is_valid_line\<close> strips the four
  characters space, tab, carriage return and line feed (not the vertical tab or the
  form feed) and answers false exactly when nothing is left or a remaining character
  is outside \<open>0-9\<close>, \<open>A-Z\<close> and the comma; when it answers true the buffer holds the
  stripped string. In particular a raw string with a character that is neither one of
  the four nor allowed (a lower-case letter, a symbol, a vertical tab) is rejected.
\<close>

theorem is_valid_line_contract:
  "is_valid_line raw =
     (case validate_and_normalize_four raw of
        None \<Rightarrow> (False, raw)
      | Some normalized \<Rightarrow> (True, normalized)) \<and>
   (c \<in> set raw \<and> \<not> is_whitespace c \<and> \<not> allowed_char c \<longrightarrow> fst (is_valid_line raw) = False)"
proof
  show "is_valid_line raw =
     (case validate_and_normalize_four raw of
        None \<Rightarrow> (False, raw)
      | Some normalized \<Rightarrow> (True, normalized))"
    by (simp add: is_valid_line_eq validate_and_normalize_four_def Let_def)
next
  show "c \<in> set raw \<and> \<not> is_whitespace c \<and> \<not> allowed_char c \<longrightarrow> fst (is_valid_line raw) = False"
  proof
    assume a: "c \<in> set raw \<and> \<not> is_whitespace c \<and> \<not> allowed_char c"
    then have "c \<in> set (filter (\<lambda>c. \<not> is_whitespace c) raw)"
      by simp
    with a have "\<not> list_all allowed_char (filter (\<lambda>c. \<not> is_whitespace c) raw)"
      by (auto simp: list_all_iff)
    then show "fst (is_valid_line raw) = False"
      by (simp add: is_valid_line_eq Let_def)
  qed
qed

theorem is_valid_line_contract_witness:
  "is_valid_line (''B, 100,H'' @ [CHR 0x0A]) = (True, ''B,100,H'') \<and>
   fst (is_valid_line ''B,1o0,H'') = False \<and>
   fst (is_valid_line record_with_vt) = False"
  using is_valid_line_contract [of "''B, 100,H'' @ [CHR 0x0A]" "CHR ''o''"]
        is_valid_line_contract [of "''B,1o0,H''" "CHR ''o''"]
        is_valid_line_contract [of record_with_vt "CHR 0x0B"]
  by (simp add: validate_and_normalize_four_def is_whitespace_def allowed_char_def
        record_with_vt_def)

text \<open>
  The claim as stated fails: with all white space stripped, the record with the
  vertical tab would be accepted as \<open>B,10,H\<close>; the code leaves the vertical tab in
  place and rejects the record.
\<close>

theorem is_valid_line_counterexample:
  "isspace (CHR 0x0B) \<and>
   validate_and_normalize_spec record_with_vt = Some ''B,10,H'' \<and>
   is_valid_line record_with_vt = (False, record_with_vt)"
  by (simp add: validate_and_normalize_spec_def isspace_def allowed_char_def
        record_with_vt_def is_valid_line_def strchr_def WHITE_SPACE_def ALLOWED_CHARS_def)

text \<open>
  Claim C9. Validation is idempotent: a record that is accepted is accepted again when
  the function is applied to its own output, and that output is left unchanged.
\<close>

theorem is_valid_line_idempotent:
  "fst (is_valid_line r) \<Longrightarrow>
     is_valid_line (snd (is_valid_line r)) = (True, snd (is_valid_line r))"
proof -
  assume "fst (is_valid_line r)"
  then have s: "snd (is_valid_line r) = filter (\<lambda>c. \<not> is_whitespace c) r"
    and ne: "filter (\<lambda>c. \<not> is_whitespace c) r \<noteq> []"
    and al: "list_all allowed_char (filter (\<lambda>c. \<not> is_whitespace c) r)"
    by (auto simp: is_valid_line_eq Let_def split: if_splits)
  from ne al show ?thesis
    unfolding s by (simp add: is_valid_line_eq [of "filter (\<lambda>c. \<not> is_whitespace c) r"] Let_def filter_allowed_id)
qed

theorem is_valid_line_idempotent_witness:
  "fst (is_valid_line (''B, 100,H'' @ [CHR 0x0A])) \<and>
   is_valid_line ''B,100,H'' = (True, ''B,100,H'')"
proof -
  have v: "is_valid_line (''B, 100,H'' @ [CHR 0x0A]) = (True, ''B,100,H'')"
    by (simp add: is_valid_line_def strchr_def WHITE_SPACE_def ALLOWED_CHARS_def)
  then have h: "fst (is_valid_line (''B, 100,H'' @ [CHR 0x0A]))"
    by simp
  from is_valid_line_idempotent [OF h] h show ?thesis
    unfolding v by simp
qed

section \<open>Properties of the extraction\<close>

declare tokens.simps [simp del] read_voltages_loop.simps [simp del]

lemma deref_eq:
  "(deref t = CHR ''H'') = (t \<noteq> [] \<and> hd t = CHR ''H'')"
  "(deref t = CHR ''B'') = (t \<noteq> [] \<and> hd t = CHR ''B'')"
  by (cases t; simp add: deref_def)+

lemma tokens_None: "strtok s '','' = None \<Longrightarrow> tokens s = []"
  by (simp add: tokens.simps [of s])

lemma tokens_Some: "strtok s '','' = Some (t, r) \<Longrightarrow> tokens s = t # tokens r"
  by (simp add: tokens.simps [of s])

text \<open>
  The loop follows the token rule of the specification on the tokens that
  \<^verbatim>\<open>strtok\<close> yields.
\<close>

lemma read_voltages_loop_rule:
  "read_voltages_loop zone token rest voltages =
     voltages @ extract_readings_spec zone (token # tokens rest)"
proof (induction zone token rest voltages rule: read_voltages_loop.induct)
  case (1 zone token rest voltages)
  define zone1 where "zone1 = (if deref token = CHR ''H'' then False else zone)"
  define voltages1 where "voltages1 = (if zone1 then voltages @ [atoi token] else voltages)"
  define zone2 where "zone2 = (if deref token = CHR ''B'' then True else zone1)"
  have z1: "zone1 = (zone \<and> \<not> (token \<noteq> [] \<and> hd token = CHR ''H''))"
    by (simp add: zone1_def deref_eq)
  have z2: "zone2 = (zone1 \<or> (token \<noteq> [] \<and> hd token = CHR ''B''))"
    by (simp add: zone2_def deref_eq)
  have spec: "extract_readings_spec zone (token # ts) =
      (if zone1 then [atoi token] else []) @ extract_readings_spec zone2 ts" for ts
    by (simp add: z1 z2 Let_def)
  show ?case
  proof (cases "strtok rest '',''")
    case None
    have "read_voltages_loop zone token rest voltages = voltages1"
      by (simp add: read_voltages_loop.simps [of zone token rest voltages] None
            zone1_def voltages1_def Let_def)
    also have "\<dots> = voltages @ extract_readings_spec zone (token # tokens rest)"
      unfolding spec by (simp add: voltages1_def tokens_None [OF None])
    finally show ?thesis .
  next
    case (Some p)
    obtain t r where p: "p = (t, r)" by (cases p)
    have st: "strtok rest '','' = Some (t, r)"
      using Some p by simp
    have ih: "read_voltages_loop zone2 t r voltages1 =
        voltages1 @ extract_readings_spec zone2 (t # tokens r)"
      unfolding zone2_def voltages1_def zone1_def
      by (rule "1.IH" [OF refl refl refl st refl])
    have "read_voltages_loop zone token rest voltages = read_voltages_loop zone2 t r voltages1"
      by (simp add: read_voltages_loop.simps [of zone token rest voltages] st
            zone1_def voltages1_def zone2_def Let_def)
    also have "\<dots> = voltages @ extract_readings_spec zone (token # tokens rest)"
      unfolding ih spec by (simp add: voltages1_def tokens_Some [OF st])
    finally show ?thesis .
  qed
qed

text \<open>
  What \<^verbatim>\<open>read_voltages\<close> does on every line: with no token it reads through the null
  pointer; with at least one token it stores the readings of the token rule and the
  closing \<open>-1\<close>.
\<close>

lemma read_voltages_rule:
  "read_voltages line =
     (if tokens line = [] then Inl NullPointerDereference
      else Inr (extract_readings_spec False (tokens line) @ [- 1]))"
proof (cases "strtok line '',''")
  case None
  then show ?thesis by (simp add: read_voltages_def tokens_None)
next
  case (Some p)
  obtain t r where p: "p = (t, r)" by (cases p)
  show ?thesis
    by (simp add: read_voltages_def Some p tokens_Some [OF Some [unfolded p]]
          read_voltages_loop_rule del: extract_readings_spec.simps)
qed

text \<open>
  The parse is lenient: a token that begins with a letter has no digits to read and
  gives 0. Outside a zone nothing is extracted until a token begins with \<open>B\<close>.
\<close>

lemma atoi_letter:
  assumes "65 \<le> (of_char c :: nat)" and "(of_char c :: nat) \<le> 90"
  shows "atoi (c # cs) = 0"
proof -
  have "\<not> isspace c" "c \<noteq> CHR ''-''" "c \<noteq> CHR ''+''" "\<not> isdigit c"
    using assms by (auto simp: isspace_def isdigit_def)
  then show ?thesis
    by (simp add: atoi_def strtol_def strtol_value_def)
qed

lemma no_zone_no_readings:
  "\<not> zone \<Longrightarrow> list_all (\<lambda>t. \<not> (t \<noteq> [] \<and> hd t = CHR ''B'')) ts \<Longrightarrow>
     extract_readings_spec zone ts = []"
  by (induction ts arbitrary: zone) (auto simp: Let_def)

lemmas eval_defs =
  process_line_def is_valid_line_def strchr_def WHITE_SPACE_def ALLOWED_CHARS_def
  mirror_config_def initial_config_def inverted_volts_def world_of_def initial_state_def
  append_data_line_def final_state_def read_voltages_def strtok_def deref_def atoi_def
  strtol_def strtol_value_def isspace_def isdigit_def batteries_of_def read_voltages_loop.simps
  tokens.simps grown_after_eof_def error_then_eof_def set_options_def set_option_def
  OFFSET_BOTTOM_def clamp_battery_def

lemma read_voltages_example:
  "read_voltages ''X,B,10,20,H,Y,30'' = Inr [10, 20, - 1] \<and>
   read_voltages ''A,C2,7'' = Inr [- 1] \<and>
   read_voltages ''A,B1,C2,7'' = Inr [0, 7, - 1]"
  by (simp add: eval_defs)

text \<open>
  Claim C3. For every normalized record the extraction applies the token rule, and a
  record with no zone yields an empty reading set. The code does so on every record
  with a token (\<open>read_voltages_rule\<close>); on the accepted record \<open>,,\<close>, which has no
  token and no zone, the rule gives the empty reading set and the code reads through
  the null pointer that the first \<^verbatim>\<open>strtok\<close> returned.
\<close>

theorem read_voltages_no_token:
  "is_valid_line ('',,'' @ [CHR 0x0A]) = (True, '',,'') \<and>
   extract_readings_spec False (tokens '',,'') = [] \<and>
   read_voltages '',,'' = Inl NullPointerDereference \<and>
   process_line initial_config (world_of []) ('',,'' @ [CHR 0x0A]) initial_state =
     Inl (NullPointerDereference, initial_state)"
  by (simp add: eval_defs)

text \<open>
  Claim C10. Every accepted record would have at least one token, so that the first
  token is never null. The record \<open>,\<close> is accepted, the first \<^verbatim>\<open>strtok\<close> on it
  returns the null pointer, and \<^verbatim>\<open>read_voltages\<close> dereferences it.
\<close>

theorem accepted_record_without_token:
  "is_valid_line '','' = (True, '','') \<and>
   strtok '','' '','' = None \<and>
   tokens '','' = [] \<and>
   read_voltages '','' = Inl NullPointerDereference"
  by (simp add: eval_defs)

section \<open>Properties of the clamping\<close>

lemma sint_nonneg_uint: "0 \<le> sint (v :: 32 word) \<Longrightarrow> sint v = uint v"
proof -
  assume nn: "0 \<le> sint v"
  have "sint v < 2 ^ (LENGTH(32) - 1)"
    by (rule sint_lt)
  then have "sint v < 2 ^ LENGTH(32)"
    by simp
  with nn have "take_bit LENGTH(32) (sint v) = sint v"
    by (simp add: take_bit_int_eq_self)
  then show ?thesis
    by (simp add: uint_sint [of v])
qed

text \<open>
  Claim C2, amended. For every reading \<open>v\<close> that is not negative, and bounds with
  \<open>volts_min \<le> volts_max\<close>: the value used is \<open>volts_min\<close> if \<open>v < volts_min\<close>,
  \<open>volts_max\<close> if \<open>v > volts_max\<close>, and \<open>v\<close> otherwise; it lies between the bounds, and
  no reading is rejected.
\<close>

theorem clamp_battery_in_range:
  assumes "0 \<le> sint v" and "VOLTS_MIN cfg \<le> VOLTS_MAX cfg"
  shows "clamp_battery cfg v =
           (if sint v < uint (VOLTS_MIN cfg) then VOLTS_MIN cfg
            else if uint (VOLTS_MAX cfg) < sint v then VOLTS_MAX cfg
            else v) \<and>
         VOLTS_MIN cfg \<le> clamp_battery cfg v \<and> clamp_battery cfg v \<le> VOLTS_MAX cfg"
proof -
  have s: "sint v = uint v"
    using assms(1) by (rule sint_nonneg_uint)
  show ?thesis
    using assms(2) unfolding s clamp_battery_def Let_def
    by (auto simp: word_less_def word_le_def)
qed

theorem clamp_battery_in_range_witness:
  "0 \<le> sint (200 :: c_int) \<and> VOLTS_MIN initial_config \<le> VOLTS_MAX initial_config \<and>
   clamp_battery initial_config 200 = 150 \<and> clamp_battery initial_config 79 = 80 \<and>
   clamp_battery initial_config 100 = 100"
  using clamp_battery_in_range [of 200 initial_config]
    clamp_battery_in_range [of 79 initial_config]
    clamp_battery_in_range [of 100 initial_config]
  by (simp add: initial_config_def)

text \<open>
  The claim as stated fails twice. The reading \<open>-2\<close> is below \<open>volts_min = 80\<close> and
  the value used is \<open>volts_max = 150\<close>. With \<^verbatim>\<open>--volts-min=20 --volts-max=10\<close>, which
  \<^verbatim>\<open>set_options\<close> accepts, the reading 150 gives 100, below \<open>volts_min = 200\<close>.
\<close>

theorem clamp_battery_counterexample:
  "sint (- 2 :: c_int) < uint (VOLTS_MIN initial_config) \<and>
   VOLTS_MIN initial_config = 80 \<and>
   clamp_battery initial_config (- 2) = 150 \<and>
   set_options [(4, ''20''), (5, ''10'')] =
     Inr (inverted_volts\<lparr>OFFSET_TOP := 23, VOLTS_STEP_dividend := 4294967196,
            VOLTS_STEP_divisor := 20\<rparr>) \<and>
   clamp_battery inverted_volts 150 = 100 \<and>
   \<not> VOLTS_MIN inverted_volts \<le> clamp_battery inverted_volts 150"
  by (simp add: eval_defs)

section \<open>Properties of the command line\<close>

lemma set_option_failure: "snd (set_option s opt) = (snd s \<or> \<not> stores_value opt)"
  by (auto simp: set_option_def stores_value_def Let_def)

lemma foldl_set_option_failure:
  "snd (foldl set_option s parsed) = (snd s \<or> \<not> list_all stores_value parsed)"
  by (induction parsed arbitrary: s) (auto simp: set_option_failure)

text \<open>
  Claim C5, amended. \<^verbatim>\<open>set_options\<close> refuses a command line exactly when an option is
  \<^verbatim>\<open>--help\<close> or not recognised; it never compares \<open>offset_top\<close> with
  \<open>offset_bottom\<close>. For an accepted command line \<open>offset_top = screen_height - 1\<close>, and
  the divisor of \<open>volts_step\<close> is \<open>offset_top - offset_bottom\<close> in unsigned 32-bit
  arithmetic, which is zero exactly when the screen height is 4.
\<close>

theorem set_options_accepts_any_height:
  "(set_options parsed = Inl UsageError \<longleftrightarrow> \<not> list_all stores_value parsed) \<and>
   (set_options parsed = Inr cfg \<longrightarrow>
      list_all stores_value parsed \<and>
      OFFSET_TOP cfg = SCREEN_HEIGHT cfg - 1 \<and>
      VOLTS_STEP_dividend cfg = VOLTS_MAX cfg - VOLTS_MIN cfg \<and>
      VOLTS_STEP_divisor cfg = OFFSET_TOP cfg - OFFSET_BOTTOM \<and>
      (VOLTS_STEP_divisor cfg = 0 \<longleftrightarrow> SCREEN_HEIGHT cfg = 4))"
proof -
  define s where "s = foldl set_option (initial_config, False) parsed"
  have f: "snd s = (\<not> list_all stores_value parsed)"
    by (simp add: s_def foldl_set_option_failure)
  have d: "(h - 1 - 3 = 0) = (h = 4)" for h :: c_uint
  proof -
    have "h - 1 - 3 = h - 4" by simp
    then show ?thesis by (simp only: right_minus_eq)
  qed
  show ?thesis
    using f unfolding set_options_def s_def [symmetric] Let_def
    by (auto simp: OFFSET_BOTTOM_def d)
qed

theorem set_options_accepts_any_height_witness:
  "set_options [(1, ''4'')] =
     Inr (initial_config\<lparr>SCREEN_HEIGHT := 4, OFFSET_TOP := 3,
            VOLTS_STEP_dividend := 70, VOLTS_STEP_divisor := 0\<rparr>) \<and>
   list_all stores_value [(1, ''4'')] \<and>
   set_options [(1, ''4''), (9, [])] = Inl UsageError"
  using set_options_accepts_any_height [of "[(1, ''4'')]"
      "initial_config\<lparr>SCREEN_HEIGHT := 4, OFFSET_TOP := 3,
            VOLTS_STEP_dividend := 70, VOLTS_STEP_divisor := 0\<rparr>"]
    set_options_accepts_any_height [of "[(1, ''4''), (9, [])]" initial_config]
  by (simp add: eval_defs stores_value_def)

text \<open>
  The claim as stated fails: \<^verbatim>\<open>--screen-height=4\<close> gives \<open>offset_top = 3 = offset_bottom\<close>
  and is accepted with the divisor 0; \<^verbatim>\<open>--screen-height=3\<close> gives
  \<open>offset_top = 2 < offset_bottom\<close> and is accepted with the divisor \<open>2^32 - 1\<close>.
\<close>

theorem set_options_counterexample:
  "set_options [(1, ''4'')] =
     Inr (initial_config\<lparr>SCREEN_HEIGHT := 4, OFFSET_TOP := 3,
            VOLTS_STEP_dividend := 70, VOLTS_STEP_divisor := 0\<rparr>) \<and>
   OFFSET_BOTTOM = 3 \<and>
   set_options [(1, ''3'')] =
     Inr (initial_config\<lparr>SCREEN_HEIGHT := 3, OFFSET_TOP := 2,
            VOLTS_STEP_dividend := 70, VOLTS_STEP_divisor := 4294967295\<rparr>)"
  by (simp add: eval_defs)

section \<open>Properties of the read loop\<close>

lemma process_line_opens: "opens (final_state (process_line cfg w raw st)) = opens st"
  by (auto simp: process_line_def append_data_line_def final_state_def
      split: sum.splits prod.splits bool.splits)

lemma read_lines_opens: "read_lines cfg w strings st = Inr st' \<Longrightarrow> opens st' = opens st"
proof (induction strings arbitrary: st)
  case Nil
  then show ?case by simp
next
  case (Cons raw strings)
  from Cons.prems obtain st1 where p: "process_line cfg w raw st = Inr st1"
    and r: "read_lines cfg w strings st1 = Inr st'"
    by (auto split: sum.splits)
  from process_line_opens [of cfg w raw st] p have "opens st1 = opens st"
    by (simp add: final_state_def)
  with Cons.IH [OF r] show ?case by simp
qed

text \<open>
  Claim C4, amended. For every accepted record, when an output file is configured and
  the append succeeds, the bytes appended are the record with its white space stripped
  (the text validation left in the buffer), followed by a newline.
\<close>

theorem mirror_gets_stripped_record:
  assumes "fst (is_valid_line raw)" and "OUTPUT_FILE cfg = Some path"
    and "\<not> append_fails w (appends st)"
  shows "appended (final_state (process_line cfg w raw st)) =
           appended st @ filter (\<lambda>c. \<not> is_whitespace c) raw @ [CHR 0x0A]"
proof -
  from assms(1) have v: "is_valid_line raw = (True, filter (\<lambda>c. \<not> is_whitespace c) raw)"
    by (auto simp: is_valid_line_eq Let_def split: if_splits)
  show ?thesis
    using assms(2,3)
    by (auto simp: process_line_def v append_data_line_def final_state_def split: sum.splits)
qed

theorem mirror_gets_stripped_record_witness:
  "fst (is_valid_line (''B, 100,H'' @ [CHR 0x0A])) \<and>
   OUTPUT_FILE mirror_config = Some ''mirror.txt'' \<and>
   \<not> append_fails (world_of []) (appends initial_state) \<and>
   appended (final_state (process_line mirror_config (world_of [])
      (''B, 100,H'' @ [CHR 0x0A]) initial_state)) = ''B,100,H'' @ [CHR 0x0A]"
proof -
  have h1: "fst (is_valid_line (''B, 100,H'' @ [CHR 0x0A]))"
    by (simp add: is_valid_line_def strchr_def WHITE_SPACE_def ALLOWED_CHARS_def)
  have h2: "OUTPUT_FILE mirror_config = Some ''mirror.txt''"
    by (simp add: mirror_config_def)
  have h3: "\<not> append_fails (world_of []) (appends initial_state)"
    by (simp add: world_of_def)
  from mirror_gets_stripped_record [OF h1 h2 h3] h1 h2 h3 show ?thesis
    by (simp add: initial_state_def is_whitespace_def)
qed

text \<open>
  The claim as stated fails: the raw record \<open>B, 100,H\<close> with its line feed is
  accepted, and the bytes appended are \<open>B,100,H\<close> and a line feed, which is neither
  the raw record followed by a newline nor the raw record itself.
\<close>

theorem mirror_counterexample:
  "appended (final_state (process_line mirror_config (world_of [])
      (''B, 100,H'' @ [CHR 0x0A]) initial_state)) = ''B,100,H'' @ [CHR 0x0A] \<and>
   ''B,100,H'' @ [CHR 0x0A] \<noteq> (''B, 100,H'' @ [CHR 0x0A]) @ [CHR 0x0A] \<and>
   ''B,100,H'' @ [CHR 0x0A] \<noteq> ''B, 100,H'' @ [CHR 0x0A]"
  by (simp add: eval_defs)

text \<open>
  Claim C1, amended. When a pass over the source file ends at end-of-file, the reader
  closes the file and leaves the loop; the path is not opened again. When a pass ends
  because \<^verbatim>\<open>fgets\<close> fails without end-of-file, the reader closes the file, opens the same
  path again and reads on. So the loop is left without an error only after a pass that
  ended at end-of-file.
\<close>

theorem main_loop_leaves_at_eof:
  "(source w (opens st) = Opened strings EndOfFile \<and>
      read_lines cfg w strings (st\<lparr>opens := opens st + 1\<rparr>) = Inr st1 \<longrightarrow>
        main_loop cfg w st = Some (Inr st1) \<and> opens st1 = opens st + 1) \<and>
   (source w (opens st) = Opened strings ReadFailure \<and>
      read_lines cfg w strings (st\<lparr>opens := opens st + 1\<rparr>) = Inr st1 \<longrightarrow>
        main_loop cfg w st = main_loop cfg w st1 \<and> opens st1 = opens st + 1) \<and>
   (main_loop cfg w st = Some (Inr st') \<longrightarrow>
      opens st < opens st' \<and> (\<exists>last. source w (opens st' - 1) = Opened last EndOfFile))"
proof (intro conjI impI)
  assume a: "source w (opens st) = Opened strings EndOfFile \<and>
      read_lines cfg w strings (st\<lparr>opens := opens st + 1\<rparr>) = Inr st1"
  then show "main_loop cfg w st = Some (Inr st1)"
    by (subst main_loop.simps) simp
  from a read_lines_opens [of cfg w strings "st\<lparr>opens := opens st + 1\<rparr>" st1]
  show "opens st1 = opens st + 1" by simp
next
  assume a: "source w (opens st) = Opened strings ReadFailure \<and>
      read_lines cfg w strings (st\<lparr>opens := opens st + 1\<rparr>) = Inr st1"
  then show "main_loop cfg w st = main_loop cfg w st1"
    by (subst main_loop.simps) simp
  from a read_lines_opens [of cfg w strings "st\<lparr>opens := opens st + 1\<rparr>" st1]
  show "opens st1 = opens st + 1" by simp
next
  assume r: "main_loop cfg w st = Some (Inr st')"
  have "\<forall>st'. y = Inr st' \<longrightarrow>
      opens st < opens st' \<and> (\<exists>last. source w (opens st' - 1) = Opened last EndOfFile)"
    if "main_loop cfg w st = Some y" for y
    using that
  proof (induction rule: main_loop.raw_induct [rotated, consumes 1, case_names step])
    case (step loop cfg w st y)
    show ?case
    proof (cases "source w (opens st)")
      case CannotOpen
      with step(2) show ?thesis by auto
    next
      case (Opened strings isEof)
      show ?thesis
      proof (cases "read_lines cfg w strings (st\<lparr>opens := opens st + 1\<rparr>)")
        case (Inl e)
        with step(2) Opened show ?thesis by auto
      next
        case (Inr st1)
        from read_lines_opens [OF Inr] have o: "opens st1 = opens st + 1" by simp
        show ?thesis
        proof (cases "isEof = EndOfFile")
          case True
          with step(2) Opened Inr have "y = Inr st1" by simp
          with o Opened True show ?thesis by auto
        next
          case False
          with step(2) Opened Inr have "loop cfg w st1 = Some y" by simp
          from step(1) [OF this] o show ?thesis by auto
        qed
      qed
    qed
  qed
  with r show "opens st < opens st'" and "\<exists>last. source w (opens st' - 1) = Opened last EndOfFile"
    by auto
qed

theorem main_loop_leaves_at_eof_witness:
  "source error_then_eof 0 = Opened [''B,100,H'' @ [CHR 0x0A]] ReadFailure \<and>
   source error_then_eof 1 =
     Opened [''B,100,H'' @ [CHR 0x0A], ''B,110,H'' @ [CHR 0x0A]] EndOfFile \<and>
   main_loop initial_config error_then_eof initial_state =
     Some (Inr \<lparr>opens = 2, appended = [], appends = 0, frames = [[100], [100], [110]]\<rparr>)"
proof -
  let ?s1 = "\<lparr>opens = 1, appended = [], appends = 0, frames = [[100 :: c_int]]\<rparr>"
  let ?s2 = "\<lparr>opens = 2, appended = [], appends = 0, frames = [[100 :: c_int], [100], [110]]\<rparr>"
  have o0: "source error_then_eof (opens initial_state) = Opened [''B,100,H'' @ [CHR 0x0A]] ReadFailure"
    by (simp add: eval_defs)
  have r0: "read_lines initial_config error_then_eof [''B,100,H'' @ [CHR 0x0A]]
      (initial_state\<lparr>opens := opens initial_state + 1\<rparr>) = Inr ?s1"
    by (simp add: eval_defs)
  have o1: "source error_then_eof (opens ?s1) =
      Opened [''B,100,H'' @ [CHR 0x0A], ''B,110,H'' @ [CHR 0x0A]] EndOfFile"
    by (simp add: eval_defs)
  have r1: "read_lines initial_config error_then_eof
      [''B,100,H'' @ [CHR 0x0A], ''B,110,H'' @ [CHR 0x0A]] (?s1\<lparr>opens := opens ?s1 + 1\<rparr>) = Inr ?s2"
    by (simp add: eval_defs)
  from main_loop_leaves_at_eof [where w = error_then_eof and st = initial_state
      and strings = "[''B,100,H'' @ [CHR 0x0A]]" and cfg = initial_config and ?st1.0 = ?s1] o0 r0
  have a: "main_loop initial_config error_then_eof initial_state =
      main_loop initial_config error_then_eof ?s1"
    by blast
  from main_loop_leaves_at_eof [where w = error_then_eof and st = ?s1
      and strings = "[''B,100,H'' @ [CHR 0x0A], ''B,110,H'' @ [CHR 0x0A]]"
      and cfg = initial_config and ?st1.0 = ?s2] o1 r1
  have b: "main_loop initial_config error_then_eof ?s1 = Some (Inr ?s2)"
    by blast
  from a b o0 o1 show ?thesis
    by (simp add: initial_state_def)
qed

text \<open>
  The claim as stated fails. Where the first pass ends at end-of-file the loop is left
  after one opening, and the record the file holds afterwards is never rendered.
  Where the first pass ends on a read error the loop goes on: the path is opened a
  second time and read from its start, so the first record is rendered twice.
\<close>

theorem main_loop_counterexample:
  "main_loop initial_config grown_after_eof initial_state =
     Some (Inr \<lparr>opens = 1, appended = [], appends = 0, frames = [[100]]\<rparr>) \<and>
   main_loop initial_config error_then_eof initial_state =
     Some (Inr \<lparr>opens = 2, appended = [], appends = 0, frames = [[100], [100], [110]]\<rparr>)"
  by (simp add: main_loop.simps eval_defs)

section \<open>Properties of the double arithmetic\<close>

lemma rne_of_int [simp]: "rne (of_int k) = k"
  by (simp add: rne_def)

lemma p2_less_iff: "((2::rat) powi m < 2 powi n) = (m < n)"
proof
  assume "(2::rat) powi m < 2 powi n"
  show "m < n"
  proof (rule ccontr)
    assume "\<not> m < n"
    then have "n \<le> m" by simp
    then have "(2::rat) powi n \<le> 2 powi m"
      by (rule power_int_increasing) simp
    with \<open>(2::rat) powi m < 2 powi n\<close> show False by simp
  qed
next
  assume "m < n"
  then show "(2::rat) powi m < 2 powi n"
    by (rule power_int_strict_increasing) simp
qed

lemma p2_le_iff: "((2::rat) powi m \<le> 2 powi n) = (m \<le> n)"
  using p2_less_iff [of n m] by (simp add: not_less [symmetric])

lemma p2_add: "(2::rat) powi (m + n) = 2 powi m * 2 powi n"
  by (simp add: power_int_add)

lemma p2_diff: "(2::rat) powi (m - n) = 2 powi m / 2 powi n"
  by (simp add: power_int_diff)

lemma p2_nat: "0 \<le> n \<Longrightarrow> (2::rat) powi n = of_int (2 ^ nat n)"
  by (simp add: power_int_nonneg_exp)

lemma rne_upper: "of_int (rne r) \<le> r + 1 / 2"
proof -
  have f: "of_int \<lfloor>r\<rfloor> \<le> r" by simp
  show ?thesis
  proof (cases "r - of_int \<lfloor>r\<rfloor> < 1 / 2")
    case True
    then have "rne r = \<lfloor>r\<rfloor>" by (simp add: rne_def Let_def)
    with f show ?thesis by linarith
  next
    case False
    then have "rne r \<le> \<lfloor>r\<rfloor> + 1" by (simp add: rne_def Let_def)
    then have "(of_int (rne r) :: rat) \<le> of_int (\<lfloor>r\<rfloor> + 1)"
      by (simp only: of_int_le_iff)
    with False show ?thesis by simp
  qed
qed

lemma rne_lower: "r - 1 / 2 \<le> of_int (rne r)"
proof -
  have f: "r < of_int \<lfloor>r\<rfloor> + 1" by linarith
  show ?thesis
  proof (cases "1 / 2 < r - of_int \<lfloor>r\<rfloor>")
    case True
    then have "rne r = \<lfloor>r\<rfloor> + 1" by (simp add: rne_def Let_def)
    with f show ?thesis by simp
  next
    case False
    have "\<lfloor>r\<rfloor> \<le> rne r" by (simp add: rne_def Let_def)
    then have "(of_int \<lfloor>r\<rfloor> :: rat) \<le> of_int (rne r)"
      by (simp only: of_int_le_iff)
    with False show ?thesis by linarith
  qed
qed

lemma rne_mono: "a \<le> b \<Longrightarrow> rne a \<le> rne b"
proof (rule ccontr)
  assume ab: "a \<le> b" and "\<not> rne a \<le> rne b"
  then have "rne b + 1 \<le> rne a" by simp
  then have l: "(of_int (rne b) :: rat) + 1 \<le> of_int (rne a)"
    by (metis of_int_1 of_int_add of_int_le_iff)
  from rne_upper [of a] rne_lower [of b] ab l have "a = b"
    by linarith
  with \<open>\<not> rne a \<le> rne b\<close> show False by simp
qed

lemma rne_less: "r < of_int k - 1 / 2 \<Longrightarrow> rne r < k"
proof -
  assume "r < of_int k - 1 / 2"
  with rne_upper [of r] have "(of_int (rne r) :: rat) < of_int k" by linarith
  then show ?thesis by simp
qed

lemma expo_bounds:
  assumes "0 < q"
  shows "2 powi expo q \<le> q \<and> q < 2 powi (expo q + 1)"
proof -
  obtain a b where ab: "quotient_of q = (a, b)" by (cases "quotient_of q")
  then have q: "q = of_int a / of_int b" and b: "0 < b"
    by (auto dest: quotient_of_div quotient_of_denom_pos)
  with assms have a: "0 < a"
    by (simp add: zero_less_divide_iff)
  define la lb where "la = bitlen a" and "lb = bitlen b"
  from bitlen_bounds [OF a] have a1: "2 ^ nat (la - 1) \<le> a" and a2: "a < 2 ^ nat la"
    by (simp_all add: la_def)
  from bitlen_bounds [OF b] have b1: "2 ^ nat (lb - 1) \<le> b" and b2: "b < 2 ^ nat lb"
    by (simp_all add: lb_def)
  have la: "1 \<le> la" and lb: "1 \<le> lb"
    using a b by (simp_all add: la_def lb_def bitlen_alt_def)
  have ra1: "(2::rat) powi (la - 1) \<le> of_int a"
    using a1 la unfolding p2_nat [of "la - 1", OF diff_ge_0_iff_ge [THEN iffD2, OF la]]
    by (simp only: of_int_le_iff)
  have ra2: "of_int a < (2::rat) powi la"
    using a2 la unfolding p2_nat [of la] by (simp only: of_int_less_iff p2_nat)
  have rb1: "(2::rat) powi (lb - 1) \<le> of_int b"
    using b1 lb unfolding p2_nat [of "lb - 1", OF diff_ge_0_iff_ge [THEN iffD2, OF lb]]
    by (simp only: of_int_le_iff)
  have rb2: "of_int b < (2::rat) powi lb"
    using b2 lb by (simp only: of_int_less_iff p2_nat)
  have up: "q < 2 powi (la - lb + 1)"
  proof -
    have "q \<le> of_int a / 2 powi (lb - 1)"
      unfolding q using rb1 a by (simp add: frac_le)
    also have "\<dots> < 2 powi la / 2 powi (lb - 1)"
      using ra2 by (simp add: divide_strict_right_mono)
    also have "\<dots> = 2 powi (la - lb + 1)"
      by (simp add: p2_diff [symmetric] algebra_simps)
    finally show ?thesis .
  qed
  have lo: "2 powi (la - lb - 1) \<le> q"
  proof -
    have "(2::rat) powi (la - lb - 1) = 2 powi (la - 1) / 2 powi lb"
      by (simp add: p2_diff [symmetric] algebra_simps)
    also have "\<dots> \<le> of_int a / 2 powi lb"
      using ra1 by (simp add: divide_right_mono)
    also have "\<dots> \<le> of_int a / of_int b"
      using rb2 a b by (simp add: frac_le)
    finally show ?thesis unfolding q .
  qed
  have e: "expo q = (if 2 powi (la - lb) \<le> q then la - lb else la - lb - 1)"
    using assms a by (simp add: expo_def ab la_def lb_def Let_def)
  show ?thesis
  proof (cases "2 powi (la - lb) \<le> q")
    case True
    with e up show ?thesis by simp
  next
    case False
    with e lo show ?thesis by simp
  qed
qed

lemma expo_unique:
  assumes "0 < q" and "2 powi e \<le> q" and "q < 2 powi (e + 1)"
  shows "expo q = e"
proof -
  from expo_bounds [OF assms(1)] have l: "2 powi expo q \<le> q" and u: "q < 2 powi (expo q + 1)"
    by simp_all
  have "(2::rat) powi e < 2 powi (expo q + 1)"
    using assms(2) u by linarith
  then have 1: "e < expo q + 1"
    by (simp only: p2_less_iff)
  have "(2::rat) powi expo q < 2 powi (e + 1)"
    using l assms(3) by linarith
  then have 2: "expo q < e + 1"
    by (simp only: p2_less_iff)
  from 1 2 show ?thesis by simp
qed


lemma ulp_pos [simp]: "0 < ulp q"
  by (simp add: ulp_def)

lemma ulp_nonneg [simp]: "0 \<le> ulp q"
  by (simp add: ulp_def)

lemma round_double_pos: "q \<noteq> 0 \<Longrightarrow> round_double q = of_int (rne (q / ulp q)) * ulp q"
  by (simp add: round_double_def ulp_def)

lemma round_double_sandwich:
  assumes "q \<noteq> 0" and "of_int ka * ulp q \<le> q" and "q \<le> of_int kb * ulp q"
  shows "of_int ka * ulp q \<le> round_double q \<and> round_double q \<le> of_int kb * ulp q"
proof -
  have "of_int ka \<le> q / ulp q" and "q / ulp q \<le> of_int kb"
    using assms(2,3) by (simp_all add: pos_le_divide_eq pos_divide_le_eq)
  then have "rne (of_int ka) \<le> rne (q / ulp q)" and "rne (q / ulp q) \<le> rne (of_int kb)"
    by (simp_all only: rne_mono)
  then have "(of_int ka :: rat) \<le> of_int (rne (q / ulp q))"
    and "(of_int (rne (q / ulp q)) :: rat) \<le> of_int kb"
    by simp_all
  then show ?thesis
    unfolding round_double_pos [OF assms(1)] by (simp add: mult_right_mono)
qed

lemma round_double_exact:
  assumes "q \<noteq> 0" and "q = of_int k * ulp q"
  shows "round_double q = q"
  using round_double_sandwich [OF assms(1), of k k] assms(2) by simp

lemma p2_expo: "(2::rat) powi e = of_int (2 ^ 52) * 2 powi (e - 52)"
  using p2_add [of 52 "e - 52"] by simp

lemma p2_expo1: "(2::rat) powi (e + 1) = of_int (2 ^ 53) * 2 powi (e - 52)"
  using p2_add [of 53 "e - 52"] by (simp add: add.commute)

lemma round_double_range:
  assumes "0 < q"
  shows "2 powi expo q \<le> round_double q \<and> round_double q \<le> 2 powi (expo q + 1)"
proof -
  have lo: "2 powi expo q = of_int (2 ^ 52) * ulp q"
    unfolding ulp_def by (rule p2_expo)
  have hi: "2 powi (expo q + 1) = of_int (2 ^ 53) * ulp q"
    unfolding ulp_def by (rule p2_expo1)
  from expo_bounds [OF assms] have "2 powi expo q \<le> q" and "q \<le> 2 powi (expo q + 1)"
    by simp_all
  then have "of_int (2 ^ 52) * ulp q \<le> q" and "q \<le> of_int (2 ^ 53) * ulp q"
    unfolding lo hi .
  with assms have "of_int (2 ^ 52) * ulp q \<le> round_double q \<and>
      round_double q \<le> of_int (2 ^ 53) * ulp q"
    by (intro round_double_sandwich) simp
  then show ?thesis
    unfolding lo hi .
qed

lemma round_double_positive: "0 < q \<Longrightarrow> 0 < round_double q"
proof -
  assume "0 < q"
  from round_double_range [OF this] have "2 powi expo q \<le> round_double q" by simp
  moreover have "(0::rat) < 2 powi expo q" by simp
  ultimately show ?thesis by linarith
qed

lemma round_double_idem:
  assumes "0 < q"
  shows "round_double (round_double q) = round_double q"
proof -
  define e where "e = expo q"
  define m where "m = rne (q / ulp q)"
  have r: "round_double q = of_int m * 2 powi (e - 52)"
    using assms by (simp add: round_double_pos m_def ulp_def e_def)
  from round_double_range [OF assms]
  have lo: "2 powi e \<le> round_double q" and hi: "round_double q \<le> 2 powi (e + 1)"
    by (simp_all add: e_def)
  have pos: "0 < round_double q"
    using assms by (rule round_double_positive)
  then have ne: "round_double q \<noteq> 0" by simp
  show ?thesis
  proof (cases "round_double q < 2 powi (e + 1)")
    case True
    have "expo (round_double q) = e"
      by (rule expo_unique [OF pos lo True])
    then have "round_double q = of_int m * ulp (round_double q)"
      by (simp add: ulp_def r)
    then show ?thesis
      by (rule round_double_exact [OF ne])
  next
    case False
    with hi have eq: "round_double q = 2 powi (e + 1)" by simp
    have "(2::rat) powi (e + 1) < 2 powi (e + 1 + 1)"
      by (simp add: p2_less_iff)
    then have "expo (round_double q) = e + 1"
      using pos unfolding eq by (intro expo_unique) simp_all
    then have "round_double q = of_int (2 ^ 52) * ulp (round_double q)"
      unfolding ulp_def eq by (simp only: p2_expo [of "e + 1", symmetric])
    then show ?thesis
      by (rule round_double_exact [OF ne])
  qed
qed

lemma expo_mono:
  assumes "0 < a" and "a \<le> b"
  shows "expo a \<le> expo b"
proof -
  have b: "0 < b" using assms by simp
  from expo_bounds [OF assms(1)] expo_bounds [OF b] assms(2)
  have "(2::rat) powi expo a < 2 powi (expo b + 1)" by linarith
  then have "expo a < expo b + 1" by (simp only: p2_less_iff)
  then show ?thesis by simp
qed

lemma round_double_mono:
  assumes "0 < a" and "a \<le> b"
  shows "round_double a \<le> round_double b"
proof -
  have b: "0 < b" using assms by simp
  show ?thesis
  proof (cases "expo a = expo b")
    case True
    then have u: "ulp a = ulp b" by (simp add: ulp_def)
    have "a / ulp b \<le> b / ulp b"
      using assms(2) by (intro divide_right_mono) simp_all
    then have "rne (a / ulp b) \<le> rne (b / ulp b)"
      by (rule rne_mono)
    then have "(of_int (rne (a / ulp b)) :: rat) \<le> of_int (rne (b / ulp b))"
      by simp
    then show ?thesis
      using assms b by (simp add: round_double_pos u mult_right_mono)
  next
    case False
    with expo_mono [OF assms] have "expo a + 1 \<le> expo b" by simp
    then have "(2::rat) powi (expo a + 1) \<le> 2 powi expo b"
      by (simp only: p2_le_iff)
    with round_double_range [OF assms(1)] round_double_range [OF b]
    show ?thesis by linarith
  qed
qed

lemma p2_inv_nat: "n \<le> 0 \<Longrightarrow> (2::rat) powi n * of_int (2 ^ nat (- n)) = 1"
proof -
  assume "n \<le> 0"
  then have "(2::rat) powi (- n) = of_int (2 ^ nat (- n))"
    by (intro p2_nat) simp
  then have "(2::rat) powi n * of_int (2 ^ nat (- n)) = 2 powi n * 2 powi (- n)"
    by simp
  also have "\<dots> = 2 powi (n + - n)"
    by (rule p2_add [symmetric])
  finally show ?thesis by simp
qed

lemma floor_round_double_lt1:
  assumes "1 / 2 \<le> t" and "t < 1 - 1 / 2 ^ 54"
  shows "\<lfloor>round_double t\<rfloor> = 0"
proof -
  have t0: "0 < t" using assms(1) by simp
  have e: "expo t = - 1"
    using t0 assms by (intro expo_unique) (simp_all add: power_int_minus)
  have u: "ulp t = 1 / 2 ^ 53"
    by (simp add: ulp_def e power_int_minus field_simps)
  have "t / ulp t < of_int (2 ^ 53) - 1 / 2"
    using assms(2) by (simp add: u field_simps)
  then have "rne (t / ulp t) < 2 ^ 53"
    by (rule rne_less)
  then have "rne (t / ulp t) \<le> 2 ^ 53 - 1" by simp
  then have "(of_int (rne (t / ulp t)) :: rat) \<le> of_int (2 ^ 53 - 1)"
    by (simp only: of_int_le_iff)
  then have "round_double t \<le> of_int (2 ^ 53 - 1) * (1 / 2 ^ 53)"
    using t0 by (simp add: round_double_pos u)
  then have "round_double t < 1" by simp
  moreover have "0 < round_double t"
    using t0 by (rule round_double_positive)
  ultimately show ?thesis by (simp add: floor_eq_iff)
qed

lemma floor_round_double_ge1:
  assumes t1: "1 \<le> t" and tb: "t < 2 ^ 53"
    and c: "(\<exists>k. t = of_int k * ulp t) \<or> t < of_int \<lfloor>t\<rfloor> + 1 / 2"
  shows "\<lfloor>round_double t\<rfloor> = \<lfloor>t\<rfloor>"
proof -
  have t0: "0 < t" using t1 by simp
  then have tne: "t \<noteq> 0" by simp
  from expo_bounds [OF t0] have el: "2 powi expo t \<le> t" and eu: "t < 2 powi (expo t + 1)"
    by simp_all
  have "(2::rat) powi 0 < 2 powi (expo t + 1)"
    using t1 eu by simp
  then have "0 < expo t + 1"
    by (simp only: p2_less_iff)
  then have e0: "0 \<le> expo t"
    by simp
  have "(2::rat) powi expo t < 2 powi 53"
    using el tb by simp
  then have "expo t < 53"
    by (simp only: p2_less_iff)
  then have e52: "expo t \<le> 52"
    by simp
  define N :: int where "N = 2 ^ nat (52 - expo t)"
  have uN: "ulp t * of_int N = 1"
    unfolding ulp_def N_def using p2_inv_nat [of "expo t - 52"] e52 by simp
  have N1: "1 \<le> N" by (simp add: N_def)
  have u1: "ulp t \<le> 1"
  proof -
    have "ulp t * 1 \<le> ulp t * of_int N"
      using N1 by (intro mult_left_mono) simp_all
    with uN show ?thesis by simp
  qed
  define k where "k = \<lfloor>t\<rfloor>"
  have kt: "of_int k \<le> t" and tk: "t < of_int k + 1"
    by (simp_all add: k_def) linarith
  have km: "of_int (k * N) * ulp t = of_int k" for k :: int
    using uN by (simp add: mult.assoc mult.commute [of "of_int N"])
  have s: "of_int k \<le> round_double t \<and> round_double t \<le> of_int (k + 1)"
    using round_double_sandwich [OF tne, of "k * N" "(k + 1) * N"] kt tk
    unfolding km by simp
  have "round_double t < of_int k + 1"
  proof (cases "\<exists>j. t = of_int j * ulp t")
    case True
    then obtain j where "t = of_int j * ulp t" ..
    then have "round_double t = t"
      by (rule round_double_exact [OF tne])
    with tk show ?thesis by simp
  next
    case False
    with c have "t < of_int k + 1 / 2" by (simp add: k_def)
    then have "t < of_int (k + 1) - ulp t / 2"
      using u1 by simp
    then have "t * of_int N < of_int ((k + 1) * N) - 1 / 2"
    proof -
      assume a: "t < of_int (k + 1) - ulp t / 2"
      have "t * of_int N < (of_int (k + 1) - ulp t / 2) * of_int N"
        using a N1 by (intro mult_strict_right_mono) simp_all
      also have "\<dots> = of_int ((k + 1) * N) - (ulp t * of_int N) / 2"
        by (simp add: algebra_simps)
      finally show ?thesis by (simp add: uN)
    qed
    moreover have "t / ulp t = t * of_int N"
      using inverse_unique [OF uN] by (simp add: divide_inverse)
    ultimately have "rne (t / ulp t) < (k + 1) * N"
      by (intro rne_less) simp
    then have "rne (t / ulp t) \<le> (k + 1) * N - 1" by simp
    then have "(of_int (rne (t / ulp t)) :: rat) \<le> of_int ((k + 1) * N - 1)"
      by (simp only: of_int_le_iff)
    then have "round_double t \<le> of_int ((k + 1) * N - 1) * ulp t"
      using tne by (simp add: round_double_pos mult_right_mono)
    also have "\<dots> = of_int (k + 1) - ulp t"
      using km [of "k + 1"] by (simp add: algebra_simps)
    finally have "round_double t \<le> of_int k + 1 - ulp t" by simp
    moreover have "0 < ulp t" by simp
    ultimately show ?thesis by linarith
  qed
  with s show ?thesis
    by (simp add: floor_eq_iff k_def)
qed

lemma floor_round_double_plus_half:
  assumes dbl: "round_double q = q" and q0: "0 < q" and qb: "q < 2 ^ 52"
    and np: "\<not> (1 / 2 - 1 / 2 ^ 54 \<le> q \<and> q < 1 / 2)"
  shows "\<lfloor>round_double (q + 1 / 2)\<rfloor> = \<lfloor>q + 1 / 2\<rfloor>"
proof (cases "q + 1 / 2 < 1")
  case True
  with np have "q + 1 / 2 < 1 - 1 / 2 ^ 54" by simp
  moreover have "1 / 2 \<le> q + 1 / 2" using q0 by simp
  ultimately have "\<lfloor>round_double (q + 1 / 2)\<rfloor> = 0"
    by (rule floor_round_double_lt1 [rotated])
  moreover have "\<lfloor>q + 1 / 2\<rfloor> = 0"
    using True q0 by (simp add: floor_eq_iff)
  ultimately show ?thesis by simp
next
  case False
  define t where "t = q + 1 / 2"
  have t1: "1 \<le> t" using False by (simp add: t_def)
  have tb: "t < 2 ^ 53" using qb by (simp add: t_def)
  have qh: "1 / 2 \<le> q" using False by simp
  have t0: "0 < t" using t1 by simp
  define e where "e = expo q"
  from expo_bounds [OF q0] have el: "2 powi e \<le> q" and eu: "q < 2 powi (e + 1)"
    by (simp_all add: e_def)
  have "(2::rat) powi e < 2 powi 52"
    using el qb by simp
  then have "e < 52" by (simp only: p2_less_iff)
  then have e51: "e \<le> 51" by simp
  have "(2::rat) powi (- 1) < 2 powi (e + 1)"
    using qh eu by (simp add: power_int_minus)
  then have "- 1 < e + 1" by (simp only: p2_less_iff)
  then have em1: "- 1 \<le> e" by simp
  have qm: "q = of_int (rne (q / ulp q)) * ulp q"
    using dbl q0 round_double_pos [of q] by simp
  have le: "e \<le> expo t"
    unfolding e_def by (rule expo_mono [OF q0]) (simp add: t_def)
  have "t \<le> 2 * q" using qh by (simp add: t_def)
  also have "\<dots> < 2 * 2 powi (e + 1)" using eu by simp
  also have "\<dots> = 2 powi (e + 2)"
    using p2_add [of 1 "e + 1"] by (simp add: add.commute)
  finally have "t < 2 powi (e + 2)" .
  with expo_bounds [OF t0] have "(2::rat) powi expo t < 2 powi (e + 2)"
    by linarith
  then have "expo t < e + 2" by (simp only: p2_less_iff)
  with le consider "expo t = e" | "expo t = e + 1" by linarith
  then have "(\<exists>k. t = of_int k * ulp t) \<or> t < of_int \<lfloor>t\<rfloor> + 1 / 2"
  proof cases
    case 1
    then have u: "ulp t = ulp q" by (simp add: ulp_def e_def)
    have "ulp q * of_int (2 ^ nat (- (e - 52))) = 1"
      unfolding ulp_def e_def [symmetric] using e51 by (intro p2_inv_nat) simp
    moreover have "nat (- (e - 52)) = Suc (nat (51 - e))"
      using e51 by simp
    ultimately have "ulp q * of_int (2 ^ nat (51 - e)) * 2 = 1"
      by (simp add: mult.assoc mult.commute [of 2])
    then have "1 / 2 = of_int (2 ^ nat (51 - e)) * ulp q"
      by (simp add: field_simps)
    then have "t = of_int (rne (q / ulp q) + 2 ^ nat (51 - e)) * ulp q"
      unfolding t_def using qm by (simp add: algebra_simps)
    then show ?thesis unfolding u by blast
  next
    case 2
    with expo_bounds [OF t0] have "2 powi (e + 1) \<le> t" by simp
    moreover have "(2::rat) powi (e + 1) = of_int (2 ^ nat (e + 1))"
      using em1 by (intro p2_nat) simp
    ultimately have "of_int (2 ^ nat (e + 1)) \<le> t" by simp
    then have "2 ^ nat (e + 1) \<le> \<lfloor>t\<rfloor>" by (simp only: le_floor_iff)
    then have "(of_int (2 ^ nat (e + 1)) :: rat) \<le> of_int \<lfloor>t\<rfloor>"
      by (simp only: of_int_le_iff)
    with \<open>(2::rat) powi (e + 1) = of_int (2 ^ nat (e + 1))\<close> eu
    have "t < of_int \<lfloor>t\<rfloor> + 1 / 2"
      unfolding t_def by linarith
    then show ?thesis ..
  qed
  then show ?thesis
    unfolding t_def [symmetric] by (rule floor_round_double_ge1 [OF t1 tb])
qed


section \<open>Properties of the bar height\<close>

lemma round_double_0 [simp]: "round_double 0 = 0"
  by (simp add: round_double_def)

lemma round_double_nonneg: "0 \<le> q \<Longrightarrow> 0 \<le> round_double q"
  using round_double_positive [of q] by (cases "q = 0") auto

lemma round_double_neg_half: "round_double (- (1 / 2)) = - (1 / 2)"
  by code_simp

lemma round_double_half: "round_double (1 / 2) = 1 / 2"
  by code_simp

lemma round_double_below_1:
  assumes "1 - 1 / 2 ^ 54 \<le> t" and "t < 1"
  shows "round_double t = 1"
proof -
  have t0: "0 < t" using assms(1) by simp
  have e: "expo t = - 1"
    using t0 assms by (intro expo_unique) (simp_all add: power_int_minus)
  have u: "ulp t = 1 / 2 ^ 53"
    by (simp add: ulp_def e power_int_minus field_simps)
  define r where "r = t / ulp t"
  have r1: "of_int (2 ^ 53) - 1 / 2 \<le> r" and r2: "r < of_int (2 ^ 53)"
    using assms by (simp_all add: r_def u field_simps)
  have "rne r = 2 ^ 53"
  proof (cases "r = of_int (2 ^ 53) - 1 / 2")
    case True
    have "rne (of_int (2 ^ 53) - 1 / 2) = 2 ^ 53"
      by code_simp
    then show ?thesis unfolding True .
  next
    case False
    with r1 have "of_int (2 ^ 53) - 1 / 2 < r" by simp
    with rne_lower [of r] have "(of_int (2 ^ 53 - 1) :: rat) < of_int (rne r)"
      by simp
    then have "2 ^ 53 - 1 < rne r" by (simp only: of_int_less_iff)
    moreover from rne_upper [of r] r2 have "(of_int (rne r) :: rat) < of_int (2 ^ 53 + 1)"
      by simp
    then have "rne r < 2 ^ 53 + 1" by (simp only: of_int_less_iff)
    ultimately show ?thesis by simp
  qed
  moreover have "round_double t = of_int (rne r) * ulp t"
    using t0 by (simp only: r_def) (simp add: round_double_pos)
  ultimately show ?thesis
    by (simp add: u)
qed

lemma round_to_int_zero: "round_to_int (Finite 0) = Some 0"
  by code_simp

lemma round_to_int_pos:
  "0 < q \<Longrightarrow> round_to_int (Finite q) = int_of_double (Finite (round_double (q + 1 / 2)))"
  by (simp add: round_to_int_def)

lemma int_of_double_nonneg:
  "0 \<le> a \<Longrightarrow> \<lfloor>a\<rfloor> \<le> 2 ^ 31 - 1 \<Longrightarrow> int_of_double (Finite a) = Some \<lfloor>a\<rfloor>"
proof -
  assume a: "0 \<le> a" and b: "\<lfloor>a\<rfloor> \<le> 2 ^ 31 - 1"
  from a have "0 \<le> \<lfloor>a\<rfloor>" by simp
  with a b show ?thesis by simp
qed

lemma round_to_int_mono:
  assumes "0 \<le> q1" and "q1 \<le> q2" and "round_to_int (Finite q2) = Some h2"
  shows "\<exists>h1. round_to_int (Finite q1) = Some h1 \<and> h1 \<le> h2"
proof (cases "q2 = 0")
  case True
  with assms have "q1 = 0" by simp
  with True assms(3) show ?thesis by simp
next
  case False
  with assms have q2: "0 < q2" by simp
  define t2 where "t2 = round_double (q2 + 1 / 2)"
  have t2p: "0 < t2"
    unfolding t2_def using q2 by (intro round_double_positive) simp
  from assms(3) have i2: "int_of_double (Finite t2) = Some h2"
    by (simp add: round_to_int_pos [OF q2] t2_def)
  with t2p have h2: "h2 = \<lfloor>t2\<rfloor>" and r2: "\<lfloor>t2\<rfloor> \<le> 2 ^ 31 - 1"
    by (auto simp: Let_def split: if_splits)
  have h2n: "0 \<le> h2" using t2p by (simp add: h2)
  show ?thesis
  proof (cases "q1 = 0")
    case True
    with h2n show ?thesis by (simp add: round_to_int_zero)
  next
    case False
    with assms(1) have q1: "0 < q1" by simp
    define t1 where "t1 = round_double (q1 + 1 / 2)"
    have t1p: "0 < t1"
      unfolding t1_def using q1 by (intro round_double_positive) simp
    have "t1 \<le> t2"
      unfolding t1_def t2_def using q1 assms(2) by (intro round_double_mono) simp_all
    then have f: "\<lfloor>t1\<rfloor> \<le> \<lfloor>t2\<rfloor>" by (rule floor_mono)
    from f r2 have "\<lfloor>t1\<rfloor> \<le> 2 ^ 31 - 1" by (rule order_trans)
    with t1p have "int_of_double (Finite t1) = Some \<lfloor>t1\<rfloor>"
      by (intro int_of_double_nonneg) simp_all
    with f show ?thesis
      by (simp add: round_to_int_pos [OF q1] t1_def h2)
  qed
qed

lemma VOLTS_STEP_cases:
  "VOLTS_STEP cfg = NaN \<or> VOLTS_STEP cfg = PlusInfinity \<or>
   (\<exists>s. VOLTS_STEP cfg = Finite s \<and> 0 \<le> s)"
proof -
  define a :: rat where "a = of_int (uint (VOLTS_STEP_dividend cfg))"
  define b :: rat where "b = of_int (uint (VOLTS_STEP_divisor cfg))"
  have a: "0 \<le> a" and b: "0 \<le> b"
    by (simp_all only: a_def b_def of_int_0_le_iff uint_nonnegative)
  have v: "VOLTS_STEP cfg = fdiv (Finite a) (Finite b)"
    by (simp only: VOLTS_STEP_def double_of_uint_def a_def b_def)
  show ?thesis
  proof (cases "b = 0")
    case True
    with a show ?thesis unfolding v by (cases "a = 0") auto
  next
    case False
    have "0 \<le> round_double (a / b)"
      using a b by (intro round_double_nonneg divide_nonneg_nonneg)
    with False show ?thesis unfolding v by simp
  qed
qed

lemma quotient_mono:
  assumes "0 \<le> n1" and "n1 \<le> n2"
    and "round_to_int (fdiv (Finite (of_int n2)) (VOLTS_STEP cfg)) = Some h2"
  shows "\<exists>h1. round_to_int (fdiv (Finite (of_int n1)) (VOLTS_STEP cfg)) = Some h1 \<and> h1 \<le> h2"
proof -
  from VOLTS_STEP_cases [of cfg] consider "VOLTS_STEP cfg = NaN" | "VOLTS_STEP cfg = PlusInfinity"
    | s where "VOLTS_STEP cfg = Finite s" "s = 0" | s where "VOLTS_STEP cfg = Finite s" "0 < s"
    by (metis less_le)
  then show ?thesis
  proof cases
    case 1
    with assms(3) show ?thesis by (simp add: round_to_int_def)
  next
    case 2
    with assms(3) show ?thesis by simp
  next
    case 3
    with assms(3) show ?thesis
      by (cases "n2 = 0") (simp_all add: round_to_int_def split: if_splits)
  next
    case 4
    have le: "(of_int n1 :: rat) / s \<le> of_int n2 / s"
      using assms(2) 4(2) by (intro divide_right_mono) simp_all
    have nn: "0 \<le> (of_int n1 :: rat) / s"
      using assms(1) 4(2) by simp
    have "round_double (of_int n1 / s) \<le> round_double (of_int n2 / s)"
    proof (cases "(of_int n1 :: rat) / s = 0")
      case True
      have "0 \<le> round_double (of_int n2 / s)"
        using le nn by (intro round_double_nonneg) simp
      then show ?thesis unfolding True by simp
    next
      case False
      with nn have "0 < (of_int n1 :: rat) / s" by (simp only: less_le) simp
      then show ?thesis using le by (rule round_double_mono)
    qed
    moreover have "0 \<le> round_double (of_int n1 / s)"
      using nn by (rule round_double_nonneg)
    ultimately show ?thesis
      using assms(3) 4 by (auto intro: round_to_int_mono)
  qed
qed

lemma clamp_battery_steps:
  assumes "v1 \<le> v2"
  shows "unat (clamp_battery cfg v1 - VOLTS_MIN cfg) \<le> unat (clamp_battery cfg v2 - VOLTS_MIN cfg)"
proof (cases "VOLTS_MIN cfg \<le> VOLTS_MAX cfg")
  case True
  have m: "VOLTS_MIN cfg \<le> clamp_battery cfg v" for v
    using True by (auto simp: clamp_battery_def Let_def)
  have "clamp_battery cfg v1 \<le> clamp_battery cfg v2"
    using assms True by (auto simp: clamp_battery_def Let_def)
  then have "unat (clamp_battery cfg v1) \<le> unat (clamp_battery cfg v2)"
    by (simp only: word_le_nat_alt)
  then have "unat (clamp_battery cfg v1) - unat (VOLTS_MIN cfg) \<le>
      unat (clamp_battery cfg v2) - unat (VOLTS_MIN cfg)"
    by (rule diff_le_mono)
  then show ?thesis
    by (simp only: unat_sub [OF m])
next
  case False
  then have "clamp_battery cfg v = VOLTS_MAX cfg" for v
    by (auto simp: clamp_battery_def Let_def)
  then show ?thesis by simp
qed

lemma rounded_height_0: "rounded_height 0 = 0"
  by code_simp

lemma rounded_height_half: "rounded_height (1 / 2) = 1"
  by code_simp

lemma round_to_int_double:
  assumes d: "q = 0 \<or> round_double q = q" and q0: "0 \<le> q" and rg: "q + 1 / 2 < 2 ^ 31 - 1"
  shows "round_to_int (Finite q) = Some (rounded_height q) \<and>
         0 \<le> rounded_height q \<and> 1 + rounded_height q \<le> 2 ^ 31 - 1"
proof (cases "q = 0")
  case True
  then show ?thesis
    by (simp add: round_to_int_zero rounded_height_0)
next
  case False
  with q0 d have qp: "0 < q" and dbl: "round_double q = q" by simp_all
  define t where "t = q + 1 / 2"
  have r: "round_to_int (Finite q) = int_of_double (Finite (round_double t))"
    unfolding t_def using qp by (rule round_to_int_pos)
  show ?thesis
  proof (cases "1 / 2 - 1 / 2 ^ 54 \<le> q \<and> q < 1 / 2")
    case True
    then have "round_double t = 1"
      unfolding t_def by (intro round_double_below_1) simp_all
    with True show ?thesis
      by (simp add: r rounded_height_def)
  next
    case False
    have qb: "q < 2 ^ 52" using rg by simp
    have f: "\<lfloor>round_double t\<rfloor> = \<lfloor>t\<rfloor>"
      unfolding t_def using dbl qp qb False by (rule floor_round_double_plus_half)
    have tp: "0 < round_double t"
      unfolding t_def using qp by (intro round_double_positive) simp
    have "t < 2 ^ 31 - 1" using rg by (simp add: t_def)
    then have "\<lfloor>t\<rfloor> < 2 ^ 31 - 1" by (simp add: floor_less_iff)
    then have fl: "\<lfloor>t\<rfloor> \<le> 2 ^ 31 - 2" by simp
    have f0: "0 \<le> \<lfloor>t\<rfloor>" using qp by (simp add: t_def)
    have "int_of_double (Finite (round_double t)) = Some \<lfloor>round_double t\<rfloor>"
      using tp fl unfolding f [symmetric] by (intro int_of_double_nonneg) simp_all
    moreover have "rounded_height q = \<lfloor>t\<rfloor>"
    proof -
      have "rounded_height q = round_half_away_from_zero q"
        unfolding rounded_height_def by (simp only: False if_False)
      also have "\<dots> = \<lfloor>t\<rfloor>"
        using qp by (simp add: round_half_away_from_zero_def t_def)
      finally show ?thesis .
    qed
    ultimately show ?thesis
      using fl f0 by (simp add: r f)
  qed
qed

text \<open>
  Claim C7, amended. For every configuration whose \<^verbatim>\<open>VOLTS_STEP\<close> is a positive
  finite double \<open>s\<close>, and every clamped entry whose double quotient
  \<open>q = (v - volts_min) / s\<close>, as the code computes it, stays in the \<^verbatim>\<open>int\<close> range: the
  bar height is \<open>q\<close> rounded half away from zero (not the exact quotient rounded: an
  exact tie whose double quotient falls below the tie rounds inward; and a \<open>q\<close> within
  \<open>2^-54\<close> below one half gives 1), and the drawn bar occupies the levels 0 to height,
  that is height + 1 rows. A reading at \<open>volts_min\<close> draws exactly one row, and a
  reading at \<open>volts_min + 0.5 * volts_step\<close> rounds up, to height 1.
\<close>

theorem bar_height_rounds_double_quotient:
  assumes st: "VOLTS_STEP cfg = Finite s" and sp: "0 < s"
    and qd: "q = round_double (of_int (uint (b - VOLTS_MIN cfg)) / s)"
    and rg: "q + 1 / 2 < 2 ^ 31 - 1"
  shows "bar_height cfg b = Some (rounded_height q) \<and>
         filled_levels cfg b = Some [0..rounded_height q] \<and>
         (b = VOLTS_MIN cfg \<longrightarrow> filled_levels cfg b = Some [0]) \<and>
         (s = 2 * of_int (uint (b - VOLTS_MIN cfg)) \<longrightarrow> bar_height cfg b = Some 1)"
proof -
  define n where "n = uint (b - VOLTS_MIN cfg)"
  have n0: "0 \<le> n" unfolding n_def by (rule uint_nonnegative)
  have x0: "0 \<le> (of_int n :: rat) / s" using sp n0 by simp
  have q0: "0 \<le> q"
    unfolding qd n_def [symmetric] using x0 by (rule round_double_nonneg)
  have d: "q = 0 \<or> round_double q = q"
  proof (cases "(of_int n :: rat) / s = 0")
    case True
    show ?thesis unfolding qd n_def [symmetric] True by simp
  next
    case False
    with x0 have "0 < (of_int n :: rat) / s" by (simp only: less_le) simp
    then show ?thesis
      unfolding qd n_def [symmetric] by (simp add: round_double_idem)
  qed
  have bh: "bar_height cfg b = round_to_int (Finite q)"
    using sp by (simp add: bar_height_def st double_of_uint_def qd)
  from round_to_int_double [OF d q0 rg]
  have r: "round_to_int (Finite q) = Some (rounded_height q)"
    and h0: "0 \<le> rounded_height q" and h1: "1 + rounded_height q \<le> 2 ^ 31 - 1"
    by simp_all
  have 1: "bar_height cfg b = Some (rounded_height q)"
    by (simp add: bh r)
  have 2: "filled_levels cfg b = Some [0..rounded_height q]"
    using h1 by (simp add: filled_levels_def bar_current_def 1)
  have 3: "filled_levels cfg b = Some [0]" if "b = VOLTS_MIN cfg"
  proof -
    from that have qz: "q = 0" by (simp add: qd)
    have "rounded_height q = 0"
      unfolding qz by (rule rounded_height_0)
    with 2 show ?thesis by (simp add: upto.simps)
  qed
  have 4: "bar_height cfg b = Some 1" if "s = 2 * of_int (uint (b - VOLTS_MIN cfg))"
  proof -
    from that sp have "(of_int n :: rat) / s = 1 / 2"
      by (simp add: n_def)
    then have qh: "q = 1 / 2"
      by (simp add: qd n_def [symmetric] round_double_half)
    have "rounded_height q = 1"
      unfolding qh by (rule rounded_height_half)
    with 1 show ?thesis by simp
  qed
  from 1 2 3 4 show ?thesis by blast
qed

theorem bar_height_rounds_double_quotient_witness:
  "VOLTS_STEP height17 = Finite (3031268979960911 / 562949953421312) \<and>
   bar_height height17 115 = Some 6 \<and>
   filled_levels height17 115 = Some [0, 1, 2, 3, 4, 5, 6] \<and>
   VOLTS_STEP default_config = Finite (7 / 2) \<and>
   filled_levels default_config (VOLTS_MIN default_config) = Some [0] \<and>
   VOLTS_STEP step_two = Finite 2 \<and>
   bar_height step_two 81 = Some 1"
proof -
  have st: "VOLTS_STEP height17 = Finite (3031268979960911 / 562949953421312)"
    by code_simp
  have sp: "(0::rat) < 3031268979960911 / 562949953421312"
    by simp
  have rg: "round_double (of_int (uint (115 - VOLTS_MIN height17)) /
      (3031268979960911 / 562949953421312)) + 1 / 2 < 2 ^ 31 - 1"
    by code_simp
  have rh: "rounded_height (round_double (of_int (uint (115 - VOLTS_MIN height17)) /
      (3031268979960911 / 562949953421312))) = 6"
    by code_simp
  have up: "[0..6 :: int] = [0, 1, 2, 3, 4, 5, 6]"
    by code_simp
  have a: "bar_height height17 115 = Some 6 \<and>
      filled_levels height17 115 = Some [0, 1, 2, 3, 4, 5, 6]"
    using bar_height_rounds_double_quotient [OF st sp refl rg] unfolding rh up by simp
  have st0: "VOLTS_STEP default_config = Finite (7 / 2)"
    by code_simp
  have rg0: "round_double (of_int (uint (VOLTS_MIN default_config - VOLTS_MIN default_config)) /
      (7 / 2)) + 1 / 2 < 2 ^ 31 - 1"
    by simp
  have sp0: "(0::rat) < 7 / 2"
    by simp
  have b: "filled_levels default_config (VOLTS_MIN default_config) = Some [0]"
    using bar_height_rounds_double_quotient [OF st0 sp0 refl rg0,
        THEN conjunct2, THEN conjunct2, THEN conjunct1]
    by simp
  have st2: "VOLTS_STEP step_two = Finite 2"
    by code_simp
  have rg2: "round_double (of_int (uint (81 - VOLTS_MIN step_two)) / 2) + 1 / 2 < 2 ^ 31 - 1"
    by code_simp
  have s2: "(2::rat) = 2 * of_int (uint (81 - VOLTS_MIN step_two))"
    by code_simp
  have sp2: "(0::rat) < 2"
    by simp
  have c: "bar_height step_two 81 = Some 1"
    using bar_height_rounds_double_quotient [OF st2 sp2 refl rg2,
        THEN conjunct2, THEN conjunct2, THEN conjunct2] s2
    by simp
  from st a st0 b st2 c show ?thesis by simp
qed

text \<open>
  The claim as stated fails. With \<^verbatim>\<open>--screen-height=17\<close> the reading 115 has the exact
  quotient 6.5, which rounds half away from zero to 7; the code divides by the double
  nearest to \<open>70/13\<close>, gets a quotient below 6.5, and draws height 6. With
  \<open>volts_max = volts_min\<close> the step is 0, the quotient of a reading at \<open>volts_min\<close> is
  NaN and no row count is defined. With \<^verbatim>\<open>--screen-height=0\<close> the quotient of the
  reading 150 exceeds the \<^verbatim>\<open>int\<close> range.
\<close>

theorem bar_height_counterexample:
  "set_options [(1, ''17'')] = Inr height17 \<and>
   clamp_battery height17 115 = 115 \<and>
   exact_quotient height17 115 = 13 / 2 \<and>
   round_half_away_from_zero (13 / 2) = 7 \<and>
   bar_height height17 115 = Some 6 \<and>
   filled_levels height17 115 = Some [0, 1, 2, 3, 4, 5, 6] \<and>
   set_options [(5, ''8'')] = Inr flat_volts \<and>
   clamp_battery flat_volts 80 = VOLTS_MIN flat_volts \<and>
   filled_levels flat_volts 80 = None \<and>
   set_options [(1, ''0'')] = Inr no_screen \<and>
   clamp_battery no_screen 150 = 150 \<and>
   bar_height no_screen 150 = None"
  by code_simp

text \<open>
  Claim C8, amended. For all readings \<open>0 \<le> v1 \<le> v2\<close> such that the height computed
  for \<open>v2\<close> is defined (the rounded quotient converts to an \<^verbatim>\<open>int\<close>), clamping followed
  by the bar height is monotonic: the height for \<open>v1\<close> is defined and is at most the
  height for \<open>v2\<close>.
\<close>

theorem bar_height_monotone:
  assumes "0 \<le> sint v1" and "sint v1 \<le> sint v2"
    and "bar_height cfg (clamp_battery cfg v2) = Some h2"
  shows "\<exists>h1. bar_height cfg (clamp_battery cfg v1) = Some h1 \<and> h1 \<le> h2"
proof -
  have "0 \<le> sint v2" using assms(1,2) by simp
  with assms(1,2) have "uint v1 \<le> uint v2"
    by (simp add: sint_nonneg_uint)
  then have "v1 \<le> v2" by (simp add: word_le_def)
  then have "unat (clamp_battery cfg v1 - VOLTS_MIN cfg) \<le>
      unat (clamp_battery cfg v2 - VOLTS_MIN cfg)"
    by (rule clamp_battery_steps)
  then have "uint (clamp_battery cfg v1 - VOLTS_MIN cfg) \<le>
      uint (clamp_battery cfg v2 - VOLTS_MIN cfg)"
    by (simp only: uint_nat of_nat_le_iff)
  moreover have "0 \<le> uint (clamp_battery cfg v1 - VOLTS_MIN cfg)"
    by (rule uint_nonnegative)
  ultimately show ?thesis
    using assms(3) unfolding bar_height_def double_of_uint_def by (intro quotient_mono)
qed

theorem bar_height_monotone_witness:
  "0 \<le> sint (90 :: c_int) \<and> sint (90 :: c_int) \<le> sint (100 :: c_int) \<and>
   bar_height default_config (clamp_battery default_config 100) = Some 6 \<and>
   bar_height default_config (clamp_battery default_config 90) = Some 3"
proof -
  have h1: "0 \<le> sint (90 :: c_int)" by simp
  have h2: "sint (90 :: c_int) \<le> sint (100 :: c_int)" by simp
  have h3: "bar_height default_config (clamp_battery default_config 100) = Some 6"
    by code_simp
  have e: "bar_height default_config (clamp_battery default_config 90) = Some 3"
    by code_simp
  from bar_height_monotone [OF h1 h2 h3] h1 h2 h3 e show ?thesis
    by simp
qed

text \<open>
  The claim as stated fails. The readings \<open>-2 \<le> 100\<close> are clamped to 150 and 100 and
  get the heights 20 and 6. With \<open>volts_max = volts_min\<close> no height is defined.
\<close>

theorem bar_height_monotone_counterexample:
  "set_options [] = Inr default_config \<and>
   sint (- 2 :: c_int) \<le> sint (100 :: c_int) \<and>
   clamp_battery default_config (- 2) = 150 \<and>
   clamp_battery default_config 100 = 100 \<and>
   bar_height default_config (clamp_battery default_config (- 2)) = Some 20 \<and>
   bar_height default_config (clamp_battery default_config 100) = Some 6 \<and>
   bar_height flat_volts (clamp_battery flat_volts 80) = None"
  by code_simp

end
